theory Spec2Isabelle
  imports Main "HOL-Library.Word"
begin

unbundle bit_operations_syntax

section \<open>NBLog: a shallow embedding of media/libnbaio/NBLog.cpp\<close>

text \<open>
  Buffers are byte lists. A pointer into a buffer is an integer offset from the start of
  the buffer; it may lie before the start (negative) or past the end, and a read through
  such a pointer is an error of the model, as it is undefined behaviour in C++.
\<close>

type_synonym byte = "8 word"

datatype error =
    Fatal          \<comment> \<open>\<open>LOG_ALWAYS_FATAL_IF\<close> fired: the process aborts\<close>
  | NullDeref      \<comment> \<open>a null pointer was dereferenced\<close>
  | OutOfBounds    \<comment> \<open>a read outside the buffer the pointer points into\<close>
  | VaArgMismatch  \<comment> \<open>\<open>va_arg\<close> on a missing argument or one of another type\<close>

subsection \<open>Declarations of NBLog.h\<close>

text \<open>
  Modelled from the spec: the header \<open>media/nbaio/NBLog.h\<close> (the \<open>Event\<close> enumeration, the
  constants of \<open>Entry\<close>, \<open>struct entry\<close>, \<open>struct ending\<close>) is not part of the sources.
  The spec gives the event kinds as a closed set of small integer tags in the order below,
  \<open>kMaxLength = 255\<close>, an overhead of 3 bytes per frame, and the trailing length byte of
  the previous frame at offset \<open>-1\<close> from a frame boundary. \<open>Event\<close> is a one-byte
  enumeration; a byte read from a buffer is cast to it unchecked, so events are bytes.
\<close>

type_synonym Event = byte

definition EVENT_RESERVED :: Event where "EVENT_RESERVED = 0"
definition EVENT_STRING :: Event where "EVENT_STRING = 1"
definition EVENT_TIMESTAMP :: Event where "EVENT_TIMESTAMP = 2"
definition EVENT_INTEGER :: Event where "EVENT_INTEGER = 3"
definition EVENT_FLOAT :: Event where "EVENT_FLOAT = 4"
definition EVENT_PID :: Event where "EVENT_PID = 5"
definition EVENT_AUTHOR :: Event where "EVENT_AUTHOR = 6"
definition EVENT_START_FMT :: Event where "EVENT_START_FMT = 7"
definition EVENT_HASH :: Event where "EVENT_HASH = 8"
definition EVENT_END_FMT :: Event where "EVENT_END_FMT = 9"
definition EVENT_HISTOGRAM_ENTRY_TS :: Event where "EVENT_HISTOGRAM_ENTRY_TS = 10"
definition EVENT_HISTOGRAM_FLUSH :: Event where "EVENT_HISTOGRAM_FLUSH = 11"
definition EVENT_UPPER_BOUND :: Event where "EVENT_UPPER_BOUND = 12"

lemmas event_defs =
  EVENT_RESERVED_def EVENT_STRING_def EVENT_TIMESTAMP_def EVENT_INTEGER_def EVENT_FLOAT_def
  EVENT_PID_def EVENT_AUTHOR_def EVENT_START_FMT_def EVENT_HASH_def EVENT_END_FMT_def
  EVENT_HISTOGRAM_ENTRY_TS_def EVENT_HISTOGRAM_FLUSH_def EVENT_UPPER_BOUND_def

definition kMaxLength :: nat where "kMaxLength = 255"

definition kOverhead :: nat where "kOverhead = 3"

definition kPreviousLengthOffset :: int where "kPreviousLengthOffset = - 1"

text \<open>\<open>offsetof(entry, type)\<close>, \<open>offsetof(entry, length)\<close>, \<open>offsetof(entry, data)\<close>.\<close>

definition off_type :: int where "off_type = 0"
definition off_length :: int where "off_length = 1"
definition off_data :: int where "off_data = 2"

subsection \<open>Reading memory\<close>

definition rd :: "byte list \<Rightarrow> int \<Rightarrow> error + byte" where
  "rd buf p = (if 0 \<le> p \<and> p < int (length buf) then Inr (buf ! nat p) else Inl OutOfBounds)"

definition rd_range :: "byte list \<Rightarrow> int \<Rightarrow> nat \<Rightarrow> error + byte list" where
  "rd_range buf p n =
     (if 0 \<le> p \<and> p + int n \<le> int (length buf) then Inr (take n (drop (nat p) buf))
      else Inl OutOfBounds)"

subsection \<open>Entry\<close>

text \<open>
  \<open>NBLog::Entry\<close>: an event, a one-byte payload length and a pointer to the payload.
  \<open>mData\<close> is \<open>None\<close> for a null pointer, otherwise the bytes readable through it.
\<close>

record Entry =
  mEvent :: Event
  mLength :: byte
  mData :: "byte list option"

text \<open>
  \<open>Entry::readAt\<close>. The result type is \<open>int\<close>; the payload is read through \<open>char *\<close>,
  taken here as signed. The caller narrows the result to \<open>uint8_t\<close>.
\<close>

definition readAt :: "Entry \<Rightarrow> nat \<Rightarrow> error + int" where
  "readAt e offset =
     (if offset = 0 then Inr (uint (mEvent e))
      else if offset = 1 then Inr (uint (mLength e))
      else if offset < unat (mLength e) + 2 then
        (case mData e of
           None \<Rightarrow> Inl NullDeref
         | Some d \<Rightarrow> if offset - 2 < length d then Inr (sint (d ! (offset - 2)))
                     else Inl OutOfBounds)
      else if offset = unat (mLength e) + 2 then Inr (uint (mLength e))
      else Inr 0)"

subsection \<open>EntryIterator\<close>

text \<open>An iterator is its \<open>ptr\<close>: an offset into the buffer it walks.\<close>

definition it_type :: "byte list \<Rightarrow> int \<Rightarrow> error + byte" where
  "it_type buf ptr = rd buf (ptr + off_type)"

definition it_length :: "byte list \<Rightarrow> int \<Rightarrow> error + byte" where
  "it_length buf ptr = rd buf (ptr + off_length)"

text \<open>\<open>operator++\<close>: \<open>ptr += ptr[offsetof(entry, length)] + kOverhead\<close>.\<close>

definition it_inc :: "byte list \<Rightarrow> int \<Rightarrow> error + int" where
  "it_inc buf ptr =
     (case rd buf (ptr + off_length) of
        Inl x \<Rightarrow> Inl x
      | Inr l \<Rightarrow> Inr (ptr + (uint l + int kOverhead)))"

text \<open>\<open>operator--\<close>: \<open>ptr -= ptr[kPreviousLengthOffset] + kOverhead\<close>.\<close>

definition it_dec :: "byte list \<Rightarrow> int \<Rightarrow> error + int" where
  "it_dec buf ptr =
     (case rd buf (ptr + kPreviousLengthOffset) of
        Inl x \<Rightarrow> Inl x
      | Inr l \<Rightarrow> Inr (ptr - (uint l + int kOverhead)))"

text \<open>\<open>hasConsistentLength\<close>: the leading length byte against the trailing one.\<close>

definition hasConsistentLength :: "byte list \<Rightarrow> int \<Rightarrow> error + bool" where
  "hasConsistentLength buf ptr =
     (case rd buf (ptr + off_length) of
        Inl x \<Rightarrow> Inl x
      | Inr l \<Rightarrow>
          (case rd buf (ptr + (uint l + int kOverhead + kPreviousLengthOffset)) of
             Inl x \<Rightarrow> Inl x
           | Inr t \<Rightarrow> Inr (l = t)))"

text \<open>\<open>copyTo\<close>: the whole frame at \<open>ptr\<close> is handed to the FIFO writer \<open>dst\<close>.\<close>

definition copyTo :: "byte list \<Rightarrow> int \<Rightarrow> byte list \<Rightarrow> error + byte list" where
  "copyTo buf ptr dst =
     (case rd buf (ptr + off_length) of
        Inl x \<Rightarrow> Inl x
      | Inr l \<Rightarrow>
          (case rd_range buf ptr (unat l + kOverhead) of
             Inl x \<Rightarrow> Inl x
           | Inr bs \<Rightarrow> Inr (dst @ bs)))"

subsection \<open>Writer\<close>

text \<open>
  The writer's FIFO is the external \<open>audio_utils_fifo_writer\<close>. Modelled from the spec:
  \<open>write(bytes, n)\<close> appends the \<open>n\<close> bytes to the producer's byte sequence; the model
  keeps that sequence (\<open>None\<close> is the null \<open>mFifoWriter\<close>).
\<close>

record Writer =
  mShared :: bool  \<comment> \<open>\<open>mShared != NULL\<close>\<close>
  mEnabled :: bool
  mFifoWriter :: "byte list option"
  mPidTag :: "byte list option"
  mPidTagSize :: nat

definition fifo_write :: "Writer \<Rightarrow> byte list \<Rightarrow> error + Writer" where
  "fifo_write w bs =
     (case mFifoWriter w of
        None \<Rightarrow> Inl NullDeref
      | Some out \<Rightarrow> Inr (w\<lparr>mFifoWriter := Some (out @ bs)\<rparr>))"

text \<open>The loop of \<open>Writer::log(const Entry *, bool)\<close>: \<open>temp[i] = entry->readAt(i)\<close>
  for \<open>i\<close> from the given index, \<open>n\<close> bytes remaining; the result is \<open>temp[i..i+n)\<close>.\<close>

fun fill_temp :: "Entry \<Rightarrow> nat \<Rightarrow> nat \<Rightarrow> error + byte list" where
  "fill_temp e i 0 = Inr []"
| "fill_temp e i (Suc n) =
     (case readAt e i of
        Inl x \<Rightarrow> Inl x
      | Inr v \<Rightarrow>
          (case fill_temp e (Suc i) n of
             Inl x \<Rightarrow> Inl x
           | Inr bs \<Rightarrow> Inr (word_of_int v # bs)))"

text \<open>\<open>Writer::log(Event, const void *, size_t)\<close> and \<open>Writer::log(const Entry *, bool)\<close>.
  The untrusted path of the latter calls the former, which validates and calls back with
  \<open>trusted = true\<close>; the trusted path is \<open>log_trusted\<close>.\<close>

definition log_trusted :: "Writer \<Rightarrow> Entry \<Rightarrow> error + Writer" where
  "log_trusted w e =
     (if \<not> mEnabled w then Inr w
      else
        (case fill_temp e 0 (unat (mLength e) + kOverhead) of
           Inl x \<Rightarrow> Inl x
         | Inr temp \<Rightarrow> fifo_write w temp))"

definition log_event :: "Writer \<Rightarrow> Event \<Rightarrow> byte list option \<Rightarrow> nat \<Rightarrow> error + Writer" where
  "log_event w event data len =
     (if \<not> mEnabled w then Inr w
      else if data = None \<or> len > kMaxLength then Inr w
      else if event = EVENT_RESERVED \<or> event \<ge> EVENT_UPPER_BOUND then Inr w
      else log_trusted w \<lparr>mEvent = event, mLength = of_nat len, mData = data\<rparr>)"

definition log_entry :: "Writer \<Rightarrow> Entry \<Rightarrow> bool \<Rightarrow> error + Writer" where
  "log_entry w e trusted =
     (if \<not> mEnabled w then Inr w
      else if \<not> trusted then log_event w (mEvent e) (mData e) (unat (mLength e))
      else log_trusted w e)"

text \<open>The bytes behind a payload pointer (none behind a null pointer).\<close>

fun data_bytes :: "byte list option \<Rightarrow> byte list" where
  "data_bytes None = []"
| "data_bytes (Some d) = d"

text \<open>The bytes of one frame: type, length, payload, length.\<close>

definition frame_bytes :: "Event \<Rightarrow> byte list \<Rightarrow> byte list" where
  "frame_bytes ev payload = [ev, of_nat (length payload)] @ payload @ [of_nat (length payload)]"


subsection \<open>Object representations\<close>

text \<open>
  The bytes of an integer object, least significant byte first (every Android ABI is
  little-endian), negative values in two's complement; and the value of such bytes.
\<close>

fun le_bytes :: "nat \<Rightarrow> int \<Rightarrow> byte list" where
  "le_bytes 0 v = []"
| "le_bytes (Suc n) v = word_of_int v # le_bytes n (v div 256)"

fun le_int :: "byte list \<Rightarrow> int" where
  "le_int [] = 0"
| "le_int (b # bs) = uint b + 256 * le_int bs"

definition sle_int :: "byte list \<Rightarrow> int" where
  "sle_int bs = (if 2 * le_int bs \<ge> 256 ^ length bs then le_int bs - 256 ^ length bs else le_int bs)"

text \<open>\<open>int\<close> and \<open>pid_t\<close> are 32-bit, \<open>float\<close> is 32-bit, \<open>log_hash_t\<close> is \<open>uint64_t\<close>.\<close>

definition sizeof_int :: nat where "sizeof_int = 4"

definition enc_int :: "32 word \<Rightarrow> byte list" where
  "enc_int x = le_bytes sizeof_int (uint x)"

definition dec_int :: "byte list \<Rightarrow> 32 word" where
  "dec_int bs = word_of_int (le_int (take sizeof_int bs))"

definition sizeof_hash :: nat where "sizeof_hash = 8"

definition enc_hash :: "64 word \<Rightarrow> byte list" where
  "enc_hash h = le_bytes sizeof_hash (uint h)"

definition dec_hash :: "byte list \<Rightarrow> 64 word" where
  "dec_hash bs = word_of_int (le_int (take sizeof_hash bs))"

text \<open>
  What the target ABI fixes and the sources do not: the width of \<open>long\<close> (and \<open>time_t\<close>),
  and the sizes of \<open>struct HistTsEntry {log_hash_t hash; timespec ts;}\<close> and of
  \<open>struct HistTsEntryWithAuthor {log_hash_t hash; timespec ts; int author;}\<close>, which is the
  former followed by \<open>author\<close> and by padding up to the alignment of the struct.
\<close>

record abi =
  long_size :: nat
  sizeof_HistTsEntry :: nat
  sizeof_HistTsEntryWithAuthor :: nat

definition abi_ok :: "abi \<Rightarrow> bool" where
  "abi_ok a \<longleftrightarrow>
     0 < long_size a \<and>
     sizeof_HistTsEntry a = sizeof_hash + 2 * long_size a \<and>
     sizeof_HistTsEntry a + sizeof_int \<le> sizeof_HistTsEntryWithAuthor a \<and>
     sizeof_HistTsEntryWithAuthor a \<le> kMaxLength"

definition lp64 :: abi where
  "lp64 = \<lparr>long_size = 8, sizeof_HistTsEntry = 24, sizeof_HistTsEntryWithAuthor = 32\<rparr>"

definition ilp32 :: abi where
  "ilp32 = \<lparr>long_size = 4, sizeof_HistTsEntry = 16, sizeof_HistTsEntryWithAuthor = 24\<rparr>"

record timespec =
  tv_sec :: int
  tv_nsec :: int

definition sizeof_timespec :: "abi \<Rightarrow> nat" where
  "sizeof_timespec a = 2 * long_size a"

definition enc_timespec :: "abi \<Rightarrow> timespec \<Rightarrow> byte list" where
  "enc_timespec a ts = le_bytes (long_size a) (tv_sec ts) @ le_bytes (long_size a) (tv_nsec ts)"

definition dec_timespec :: "abi \<Rightarrow> byte list \<Rightarrow> timespec" where
  "dec_timespec a bs =
     \<lparr>tv_sec = sle_int (take (long_size a) bs),
      tv_nsec = sle_int (take (long_size a) (drop (long_size a) bs))\<rparr>"

subsection \<open>C strings\<close>

text \<open>
  A \<open>const char *\<close> that is not null points to the characters of a \<open>string\<close> followed by a
  terminating NUL; a NUL inside the list ends the C string there.
\<close>

definition NUL :: char where "NUL = CHR 0x00"

definition strlen :: "string \<Rightarrow> nat" where
  "strlen s = length (takeWhile (\<lambda>c. c \<noteq> NUL) s)"

definition c_bytes :: "string \<Rightarrow> byte list" where
  "c_bytes s = map of_char s @ [0]"

subsection \<open>The logging operations of the writer\<close>

text \<open>\<open>Writer::Writer(void *shared, size_t size)\<close>, with the process id and the process name
  (\<open>prctl(PR_GET_NAME)\<close>, at most 15 characters and a NUL; empty on error) as inputs, and
  the default constructor.\<close>

definition Writer_new :: "bool \<Rightarrow> 32 word \<Rightarrow> string \<Rightarrow> Writer" where
  "Writer_new shared pid procName =
     (let len = strlen procName in
      \<lparr>mShared = shared,
       mEnabled = shared,
       mFifoWriter = (if shared then Some [] else None),
       mPidTag = Some (enc_int pid @ take len (map of_char procName)),
       mPidTagSize = len + sizeof_int\<rparr>)"

definition Writer_default :: Writer where
  "Writer_default =
     \<lparr>mShared = False, mEnabled = False, mFifoWriter = None, mPidTag = None, mPidTagSize = 0\<rparr>"

definition setEnabled :: "Writer \<Rightarrow> bool \<Rightarrow> bool \<times> Writer" where
  "setEnabled w enabled = (mEnabled w, w\<lparr>mEnabled := enabled \<and> mShared w\<rparr>)"

text \<open>\<open>Writer::log(const char *)\<close>.\<close>

definition log_string :: "Writer \<Rightarrow> string option \<Rightarrow> error + Writer" where
  "log_string w string =
     (if \<not> mEnabled w then Inr w
      else
        (case string of
           None \<Rightarrow> Inl Fatal
         | Some s \<Rightarrow>
             (let len = strlen s;
                  len = (if len > kMaxLength then kMaxLength else len)
              in log_event w EVENT_STRING (Some (c_bytes s)) len)))"

text \<open>\<open>Writer::logTimestamp()\<close>; \<open>clk\<close> is what \<open>clock_gettime(CLOCK_MONOTONIC, &ts)\<close>
  yields, \<open>None\<close> when it fails.\<close>

definition logTimestamp_now :: "abi \<Rightarrow> Writer \<Rightarrow> timespec option \<Rightarrow> error + Writer" where
  "logTimestamp_now a w clk =
     (if \<not> mEnabled w then Inr w
      else
        (case clk of
           None \<Rightarrow> Inr w
         | Some ts \<Rightarrow> log_event w EVENT_TIMESTAMP (Some (enc_timespec a ts)) (sizeof_timespec a)))"

text \<open>\<open>Writer::logTimestamp(const struct timespec &)\<close>.\<close>

definition logTimestamp :: "abi \<Rightarrow> Writer \<Rightarrow> timespec \<Rightarrow> error + Writer" where
  "logTimestamp a w ts =
     (if \<not> mEnabled w then Inr w
      else log_event w EVENT_TIMESTAMP (Some (enc_timespec a ts)) (sizeof_timespec a))"

definition logInteger :: "Writer \<Rightarrow> 32 word \<Rightarrow> error + Writer" where
  "logInteger w x =
     (if \<not> mEnabled w then Inr w
      else log_event w EVENT_INTEGER (Some (enc_int x)) sizeof_int)"

text \<open>\<open>Writer::logFloat\<close>; a \<open>float\<close> is the 32 bits of its object representation.\<close>

definition logFloat :: "Writer \<Rightarrow> 32 word \<Rightarrow> error + Writer" where
  "logFloat w x =
     (if \<not> mEnabled w then Inr w
      else log_event w EVENT_FLOAT (Some (le_bytes 4 (uint x))) 4)"

definition logPID :: "Writer \<Rightarrow> error + Writer" where
  "logPID w =
     (if \<not> mEnabled w then Inr w
      else log_event w EVENT_PID (mPidTag w) (mPidTagSize w))"

definition logStart :: "Writer \<Rightarrow> string \<Rightarrow> error + Writer" where
  "logStart w fmt =
     (if \<not> mEnabled w then Inr w
      else
        (let len = strlen fmt;
             len = (if len > kMaxLength then kMaxLength else len)
         in log_event w EVENT_START_FMT (Some (c_bytes fmt)) len))"

definition logEnd :: "Writer \<Rightarrow> error + Writer" where
  "logEnd w =
     (if \<not> mEnabled w then Inr w
      else log_entry w \<lparr>mEvent = EVENT_END_FMT, mLength = 0, mData = None\<rparr> True)"

definition logHash :: "Writer \<Rightarrow> 64 word \<Rightarrow> error + Writer" where
  "logHash w hash =
     (if \<not> mEnabled w then Inr w
      else log_event w EVENT_HASH (Some (enc_hash hash)) sizeof_hash)"

text \<open>
  The variable arguments of \<open>logFormat\<close>. \<open>va_arg(argp, T)\<close> on an argument list whose next
  argument is missing or not a \<open>T\<close> is undefined behaviour: \<open>VaArgMismatch\<close>. A \<open>float\<close>
  argument arrives promoted to \<open>double\<close> (its 64 bits); the narrowing \<open>(float) f\<close> is the
  parameter \<open>cvt\<close> of \<open>logVFormat\<close>.
\<close>

datatype va_arg =
    VaString "string option"
  | VaTimespec timespec
  | VaInt "32 word"
  | VaDouble "64 word"

text \<open>The loop of \<open>Writer::logVFormat\<close> over the characters from \<open>p\<close> on.\<close>

fun logVFormat_loop ::
  "(64 word \<Rightarrow> 32 word) \<Rightarrow> abi \<Rightarrow> Writer \<Rightarrow> string \<Rightarrow> va_arg list \<Rightarrow> error + Writer" where
  "logVFormat_loop cvt a w [] argp = Inr w"
| "logVFormat_loop cvt a w [c] argp = Inr w"
| "logVFormat_loop cvt a w (c # d # p) argp =
     (if c = NUL then Inr w
      else if c \<noteq> CHR ''%'' then logVFormat_loop cvt a w (d # p) argp
      else if d = CHR ''s'' then
        (case argp of
           VaString s # argp' \<Rightarrow>
             (case log_string w s of
                Inl x \<Rightarrow> Inl x
              | Inr w' \<Rightarrow> logVFormat_loop cvt a w' p argp')
         | _ \<Rightarrow> Inl VaArgMismatch)
      else if d = CHR ''t'' then
        (case argp of
           VaTimespec t # argp' \<Rightarrow>
             (case logTimestamp a w t of
                Inl x \<Rightarrow> Inl x
              | Inr w' \<Rightarrow> logVFormat_loop cvt a w' p argp')
         | _ \<Rightarrow> Inl VaArgMismatch)
      else if d = CHR ''d'' then
        (case argp of
           VaInt i # argp' \<Rightarrow>
             (case logInteger w i of
                Inl x \<Rightarrow> Inl x
              | Inr w' \<Rightarrow> logVFormat_loop cvt a w' p argp')
         | _ \<Rightarrow> Inl VaArgMismatch)
      else if d = CHR ''f'' then
        (case argp of
           VaDouble f # argp' \<Rightarrow>
             (case logFloat w (cvt f) of
                Inl x \<Rightarrow> Inl x
              | Inr w' \<Rightarrow> logVFormat_loop cvt a w' p argp')
         | _ \<Rightarrow> Inl VaArgMismatch)
      else if d = CHR ''p'' then
        (case logPID w of
           Inl x \<Rightarrow> Inl x
         | Inr w' \<Rightarrow> logVFormat_loop cvt a w' p argp)
      else if d = NUL then Inr w
      else if d = CHR ''%'' then logVFormat_loop cvt a w p argp
      else logVFormat_loop cvt a w p argp)"

definition logVFormat ::
  "(64 word \<Rightarrow> 32 word) \<Rightarrow> abi \<Rightarrow> Writer \<Rightarrow> timespec option \<Rightarrow> string \<Rightarrow> 64 word \<Rightarrow>
   va_arg list \<Rightarrow> error + Writer" where
  "logVFormat cvt a w clk fmt hash argp =
     (if \<not> mEnabled w then Inr w
      else
        (case logStart w fmt of
           Inl x \<Rightarrow> Inl x
         | Inr w1 \<Rightarrow>
             (case logTimestamp_now a w1 clk of
                Inl x \<Rightarrow> Inl x
              | Inr w2 \<Rightarrow>
                  (case logHash w2 hash of
                     Inl x \<Rightarrow> Inl x
                   | Inr w3 \<Rightarrow>
                       (case logVFormat_loop cvt a w3 fmt argp of
                          Inl x \<Rightarrow> Inl x
                        | Inr w4 \<Rightarrow> logEnd w4)))))"

definition logFormat ::
  "(64 word \<Rightarrow> 32 word) \<Rightarrow> abi \<Rightarrow> Writer \<Rightarrow> timespec option \<Rightarrow> string \<Rightarrow> 64 word \<Rightarrow>
   va_arg list \<Rightarrow> error + Writer" where
  "logFormat cvt a w clk fmt hash argp =
     (if \<not> mEnabled w then Inr w else logVFormat cvt a w clk fmt hash argp)"


subsection \<open>The invariant of a constructed writer\<close>

text \<open>
  What the constructors and \<open>setEnabled\<close> establish and the logging operations keep: an
  enabled writer has shared memory behind it, and a writer with shared memory has a FIFO
  writer and a pid tag of \<open>mPidTagSize\<close> bytes, the pid and at most 15 characters.
\<close>

definition writer_inv :: "Writer \<Rightarrow> bool" where
  "writer_inv w \<longleftrightarrow>
     (mEnabled w \<longrightarrow> mShared w) \<and>
     (mShared w \<longrightarrow> mFifoWriter w \<noteq> None) \<and>
     (mShared w \<longrightarrow>
        (case mPidTag w of
           None \<Rightarrow> False
         | Some tag \<Rightarrow> mPidTagSize w = length tag \<and> length tag \<le> 15 + sizeof_int))"

subsection \<open>The frames of a formatted record, in the words of the specification\<close>

text \<open>
  A frame is its event tag and its payload; on the wire it is \<open>frame_bytes\<close>.
  \<open>format_arg_frames\<close> is the writer-side format grammar of the specification: one
  argument frame per specifier, in the order of the format string; \<open>%s\<close> a \<open>STRING\<close> (cut
  to \<open>kMaxLength\<close>), \<open>%t\<close> a \<open>TIMESTAMP\<close>, \<open>%d\<close> an \<open>INTEGER\<close>, \<open>%f\<close> a \<open>FLOAT\<close>, \<open>%p\<close> a
  \<open>PID\<close> (the cached blob \<open>pid\<close>, no argument), \<open>%%\<close> and unknown specifiers no frame, and
  a \<open>%\<close> before the terminator ends the scan. The result is \<open>None\<close> when an argument is
  missing, of another type than its specifier, or a null string.
\<close>

type_synonym frame = "Event \<times> byte list"

definition frames_bytes :: "frame list \<Rightarrow> byte list" where
  "frames_bytes fs = concat (map (\<lambda>(ev, payload). frame_bytes ev payload) fs)"

definition string_payload :: "string \<Rightarrow> byte list" where
  "string_payload s = map of_char (take kMaxLength (takeWhile (\<lambda>c. c \<noteq> NUL) s))"

fun format_arg_frames ::
  "(64 word \<Rightarrow> 32 word) \<Rightarrow> abi \<Rightarrow> byte list \<Rightarrow> string \<Rightarrow> va_arg list \<Rightarrow> frame list option" where
  "format_arg_frames cvt a pid [] args = Some []"
| "format_arg_frames cvt a pid [c] args = Some []"
| "format_arg_frames cvt a pid (c # d # fmt) args =
     (if c = NUL then Some []
      else if c \<noteq> CHR ''%'' then format_arg_frames cvt a pid (d # fmt) args
      else if d = CHR ''s'' then
        (case args of
           VaString (Some s) # args' \<Rightarrow>
             map_option (\<lambda>fs. (EVENT_STRING, string_payload s) # fs)
               (format_arg_frames cvt a pid fmt args')
         | _ \<Rightarrow> None)
      else if d = CHR ''t'' then
        (case args of
           VaTimespec t # args' \<Rightarrow>
             map_option (\<lambda>fs. (EVENT_TIMESTAMP, enc_timespec a t) # fs)
               (format_arg_frames cvt a pid fmt args')
         | _ \<Rightarrow> None)
      else if d = CHR ''d'' then
        (case args of
           VaInt i # args' \<Rightarrow>
             map_option (\<lambda>fs. (EVENT_INTEGER, enc_int i) # fs)
               (format_arg_frames cvt a pid fmt args')
         | _ \<Rightarrow> None)
      else if d = CHR ''f'' then
        (case args of
           VaDouble f # args' \<Rightarrow>
             map_option (\<lambda>fs. (EVENT_FLOAT, le_bytes 4 (uint (cvt f))) # fs)
               (format_arg_frames cvt a pid fmt args')
         | _ \<Rightarrow> None)
      else if d = CHR ''p'' then
        map_option (\<lambda>fs. (EVENT_PID, pid) # fs) (format_arg_frames cvt a pid fmt args)
      else if d = NUL then Some []
      else format_arg_frames cvt a pid fmt args)"

text \<open>The payload of a \<open>PID\<close> frame: the cached pid tag of the writer.\<close>

definition pid_payload :: "Writer \<Rightarrow> byte list" where
  "pid_payload w = take (mPidTagSize w) (data_bytes (mPidTag w))"

subsection \<open>Reader: the backward scan\<close>

text \<open>\<open>Reader::startingTypes\<close> and \<open>Reader::endingTypes\<close>.\<close>

definition startingTypes :: "Event list" where
  "startingTypes = [EVENT_START_FMT, EVENT_HISTOGRAM_ENTRY_TS]"

definition endingTypes :: "Event list" where
  "endingTypes = [EVENT_END_FMT, EVENT_HISTOGRAM_ENTRY_TS, EVENT_HISTOGRAM_FLUSH]"

text \<open>
  \<open>Reader::findLastEntryOfTypes\<close>. \<open>Inr None\<close> is the null result. The loop goes on only
  with \<open>front \<le> prev < back\<close>, so \<open>back - front\<close> decreases.
\<close>

function findLastEntryOfTypes ::
  "byte list \<Rightarrow> int \<Rightarrow> int \<Rightarrow> Event list \<Rightarrow> error + int option" where
  "findLastEntryOfTypes buf front back types =
     (if back + kPreviousLengthOffset \<ge> front then
        (case rd buf (back + kPreviousLengthOffset) of
           Inl x \<Rightarrow> Inl x
         | Inr l \<Rightarrow>
             (let prev = back - uint l - int kOverhead in
              if prev < front then Inr None
              else
                (case rd buf (prev + off_length) of
                   Inl x \<Rightarrow> Inl x
                 | Inr pl \<Rightarrow>
                     if prev + uint pl + int kOverhead \<noteq> back then Inr None
                     else
                       (case rd buf (prev + off_type) of
                          Inl x \<Rightarrow> Inl x
                        | Inr ty \<Rightarrow>
                            if ty \<in> set types then Inr (Some prev)
                            else findLastEntryOfTypes buf front prev types))))
      else Inr None)"
  by pat_completeness auto
termination
proof (relation "measure (\<lambda>(buf, front, back, types). nat (back - front))")
  show "wf (measure (\<lambda>(buf :: byte list, front :: int, back :: int, types :: Event list).
              nat (back - front)))"
    by simp
next
  fix buf :: "byte list" and front bk :: int and types :: "Event list"
    and l :: byte and prev :: int
  assume "prev = bk - uint l - int kOverhead" and "\<not> prev < front"
  moreover have "0 \<le> uint l" by simp
  moreover have "int kOverhead = 3" by (simp add: kOverhead_def)
  ultimately have "front \<le> prev \<and> prev < bk"
    by linarith
  then show "((buf, front, prev, types), (buf, front, bk, types))
             \<in> measure (\<lambda>(buf, front, back, types). nat (back - front))"
    by simp
qed

text \<open>
  The frames reachable from \<open>back\<close> by consistent backward iteration, nearest first, in
  the words of the specification: from a known end-of-frame boundary \<open>back\<close>, the previous
  frame starts at \<open>prev = back - back[trailing length] - kOverhead\<close>; the step is
  consistent when \<open>prev \<ge> front\<close> and \<open>prev + prev[leading length] + kOverhead = back\<close>.
\<close>

definition consistent_prev :: "byte list \<Rightarrow> int \<Rightarrow> int \<Rightarrow> int option" where
  "consistent_prev buf front back =
     (if front \<le> back - 1 \<and> 0 \<le> back - 1 \<and> back - 1 < int (length buf) then
        (let prev = back - uint (buf ! nat (back - 1)) - 3 in
         if front \<le> prev \<and> 0 \<le> prev \<and> prev + 1 < int (length buf) \<and>
            prev + uint (buf ! nat (prev + 1)) + 3 = back
         then Some prev else None)
      else None)"

function back_chain :: "byte list \<Rightarrow> int \<Rightarrow> int \<Rightarrow> int list" where
  "back_chain buf front back =
     (case consistent_prev buf front back of
        None \<Rightarrow> []
      | Some prev \<Rightarrow> prev # back_chain buf front prev)"
  by pat_completeness auto
termination
proof (relation "measure (\<lambda>(buf, front, back). nat (back - front))")
  show "wf (measure (\<lambda>(buf :: byte list, front :: int, back :: int). nat (back - front)))"
    by simp
next
  fix buf :: "byte list" and front bk prev :: int
  assume "consistent_prev buf front bk = Some prev"
  then have "front \<le> prev" and "prev = bk - uint (buf ! nat (bk - 1)) - 3"
    by (auto simp: consistent_prev_def Let_def split: if_splits)
  moreover have "0 \<le> uint (buf ! nat (bk - 1))" by simp
  ultimately have "front \<le> prev \<and> prev < bk"
    by linarith
  then show "((buf, front, prev), (buf, front, bk))
             \<in> measure (\<lambda>(buf, front, back). nat (back - front))"
    by simp
qed

definition type_in :: "byte list \<Rightarrow> Event list \<Rightarrow> int \<Rightarrow> bool" where
  "type_in buf types p \<longleftrightarrow> 0 \<le> p \<and> p < int (length buf) \<and> buf ! nat p \<in> set types"

subsection \<open>Reader: snapshots\<close>

text \<open>
  A snapshot: the copied bytes, \<open>mBegin\<close> and \<open>mEnd\<close> as offsets into them, and the lost
  byte count. \<open>Snapshot()\<close> has no data; its iterators are equal.
\<close>

record Snapshot =
  snap_mData :: "byte list"
  mBegin :: int
  mEnd :: int
  mLost :: nat

definition Snapshot_empty :: Snapshot where
  "Snapshot_empty = \<lparr>snap_mData = [], mBegin = 0, mEnd = 0, mLost = 0\<rparr>"

text \<open>
  What \<open>mFifoReader->obtain(iovec, capacity, NULL, &lost)\<close> yields: the count of readable
  bytes (not positive when there are none or on error), the bytes of the two regions, and
  the lost byte count. The FIFO is external; its regions hold \<open>availToRead\<close> bytes in all.
\<close>

record fifo_obtain =
  availToRead :: int
  iovec0 :: "byte list"
  iovec1 :: "byte list"
  lost :: nat

subsection \<open>FormatEntry and HistogramEntry\<close>

text \<open>
  An entry is the offset \<open>mEntry\<close> of its first frame. \<open>payload<int>()\<close> reads an \<open>int\<close> at
  the payload of the frame under the iterator, whatever the length byte says.
\<close>

definition payload_int :: "byte list \<Rightarrow> int \<Rightarrow> error + 32 word" where
  "payload_int buf ptr =
     (case rd_range buf (ptr + off_data) sizeof_int of
        Inl x \<Rightarrow> Inl x
      | Inr bs \<Rightarrow> Inr (dec_int bs))"

text \<open>\<open>FormatEntry::hash\<close>: skip the start and the timestamp, copy 8 bytes of payload.\<close>

definition FormatEntry_hash :: "byte list \<Rightarrow> int \<Rightarrow> error + 64 word" where
  "FormatEntry_hash buf mEntry =
     (case it_inc buf mEntry of
        Inl x \<Rightarrow> Inl x
      | Inr it1 \<Rightarrow>
          (case it_inc buf it1 of
             Inl x \<Rightarrow> Inl x
           | Inr it2 \<Rightarrow>
               (case rd_range buf (it2 + off_data) sizeof_hash of
                  Inl x \<Rightarrow> Inl x
                | Inr bs \<Rightarrow> Inr (dec_hash bs))))"

text \<open>\<open>FormatEntry::author\<close>: skip start, timestamp and hash; the author entry if there
  is one, \<open>-1\<close> otherwise.\<close>

definition FormatEntry_author :: "byte list \<Rightarrow> int \<Rightarrow> error + 32 word" where
  "FormatEntry_author buf mEntry =
     (case it_inc buf mEntry of
        Inl x \<Rightarrow> Inl x
      | Inr it1 \<Rightarrow>
          (case it_inc buf it1 of
             Inl x \<Rightarrow> Inl x
           | Inr it2 \<Rightarrow>
               (case it_inc buf it2 of
                  Inl x \<Rightarrow> Inl x
                | Inr it3 \<Rightarrow>
                    (case it_type buf it3 of
                       Inl x \<Rightarrow> Inl x
                     | Inr ty \<Rightarrow>
                         if ty = EVENT_AUTHOR then payload_int buf it3 else Inr (- 1)))))"

text \<open>
  \<open>HistogramEntry::author\<close>. \<open>author\<close> is the last member of \<open>HistTsEntryWithAuthor\<close>, after
  the members of \<open>HistTsEntry\<close>: its offset in the payload is \<open>sizeof(HistTsEntry)\<close>, as
  \<open>HistogramEntry::copyWithAuthor\<close> has it.
\<close>

definition HistogramEntry_author :: "abi \<Rightarrow> byte list \<Rightarrow> int \<Rightarrow> error + 32 word" where
  "HistogramEntry_author a buf mEntry =
     (case it_length buf mEntry of
        Inl x \<Rightarrow> Inl x
      | Inr l \<Rightarrow>
          if unat l = sizeof_HistTsEntryWithAuthor a then
            (case rd_range buf (mEntry + off_data + int (sizeof_HistTsEntry a)) sizeof_int of
               Inl x \<Rightarrow> Inl x
             | Inr bs \<Rightarrow> Inr (dec_int bs))
          else Inr (- 1))"

text \<open>The author entry that \<open>FormatEntry::copyWithAuthor\<close> builds on its stack: every one
  of its \<open>kOverhead + sizeof(author)\<close> bytes is written.\<close>

definition authorEntry :: "32 word \<Rightarrow> byte list" where
  "authorEntry author = [EVENT_AUTHOR, of_nat sizeof_int] @ enc_int author @ [of_nat sizeof_int]"

text \<open>The bytes of the stack buffer of \<open>HistogramEntry::copyWithAuthor\<close> that lie in the
  padding of \<open>HistTsEntryWithAuthor\<close> after \<open>author\<close>; they are never written.\<close>

definition hist_padding :: "abi \<Rightarrow> byte list \<Rightarrow> byte list" where
  "hist_padding a stack =
     take (sizeof_HistTsEntryWithAuthor a - sizeof_HistTsEntry a - sizeof_int)
       (drop (2 + sizeof_HistTsEntry a + sizeof_int) stack)"

subsection \<open>Formatter: the hash field\<close>

text \<open>
  The conversions of \<open>printf\<close> that \<open>String8::appendFormat("%.4X-%d ", ...)\<close> uses (the C
  library is external): \<open>%.4X\<close> writes an unsigned value in upper-case hexadecimal with at
  least 4 digits, \<open>%d\<close> an \<open>int\<close> in decimal.
\<close>

definition hex_digit :: "nat \<Rightarrow> char" where
  "hex_digit n = ''0123456789ABCDEF'' ! n"

text \<open>The digits of \<open>n\<close> in a base of at least 2, most significant first, none for 0.\<close>

function digits :: "nat \<Rightarrow> nat \<Rightarrow> string" where
  "digits base n =
     (if n = 0 \<or> base < 2 then [] else digits base (n div base) @ [hex_digit (n mod base)])"
  by pat_completeness auto
termination
  by (relation "measure (\<lambda>(base, n). n)") auto

definition printf_X :: "nat \<Rightarrow> nat \<Rightarrow> string" where
  "printf_X prec n = replicate (prec - length (digits 16 n)) (CHR ''0'') @ digits 16 n"

definition printf_d :: "int \<Rightarrow> string" where
  "printf_d i =
     (if i < 0 then CHR ''-'' # digits 10 (nat (- i))
      else if i = 0 then ''0''
      else digits 10 (nat i))"

text \<open>
  The hash field of \<open>Reader::handleFormat\<close>:
  \<open>body->appendFormat("%.4X-%d ", (int)(hash >> 16) & 0xFFFF, (int) hash & 0xFFFF)\<close>.
  The casts to \<open>int\<close> keep the low 32 bits; both arguments are then masked to 16 bits.
\<close>

definition handleFormat_hash :: "byte list \<Rightarrow> int \<Rightarrow> error + string" where
  "handleFormat_hash buf mEntry =
     (case FormatEntry_hash buf mEntry of
        Inl x \<Rightarrow> Inl x
      | Inr hash \<Rightarrow>
          (let hi = (ucast (drop_bit 16 hash) :: 32 word) AND 0xFFFF;
               lo = (ucast hash :: 32 word) AND 0xFFFF
           in Inr (printf_X 4 (unat hi) @ ''-'' @ printf_d (sint lo) @ '' '')))"

subsection \<open>Merger\<close>

text \<open>
  \<open>AbstractEntry::buildEntry\<close> looks at the type of the frame under the pointer: a format
  entry, a histogram entry, or \<open>nullptr\<close> for any other type.
\<close>

datatype entry_kind = FormatKind | HistogramKind

definition buildEntry :: "byte list \<Rightarrow> int \<Rightarrow> error + entry_kind option" where
  "buildEntry buf ptr =
     (case it_type buf ptr of
        Inl x \<Rightarrow> Inl x
      | Inr ty \<Rightarrow>
          if ty = EVENT_START_FMT then Inr (Some FormatKind)
          else if ty = EVENT_HISTOGRAM_FLUSH \<or> ty = EVENT_HISTOGRAM_ENTRY_TS
          then Inr (Some HistogramKind)
          else Inr None)"

text \<open>\<open>FormatEntry::timestamp\<close>: the \<open>timespec\<close> at the payload of the second frame.
  \<open>HistogramEntry::timestamp\<close>: the member \<open>ts\<close> of the \<open>HistTsEntry\<close> payload, after the
  hash.\<close>

definition FormatEntry_timestamp :: "abi \<Rightarrow> byte list \<Rightarrow> int \<Rightarrow> error + timespec" where
  "FormatEntry_timestamp a buf mEntry =
     (case it_inc buf mEntry of
        Inl x \<Rightarrow> Inl x
      | Inr it \<Rightarrow>
          (case rd_range buf (it + off_data) (sizeof_timespec a) of
             Inl x \<Rightarrow> Inl x
           | Inr bs \<Rightarrow> Inr (dec_timespec a bs)))"

definition HistogramEntry_timestamp :: "abi \<Rightarrow> byte list \<Rightarrow> int \<Rightarrow> error + timespec" where
  "HistogramEntry_timestamp a buf mEntry =
     (case rd_range buf (mEntry + off_data + int sizeof_hash) (sizeof_timespec a) of
        Inl x \<Rightarrow> Inl x
      | Inr bs \<Rightarrow> Inr (dec_timespec a bs))"

text \<open>The virtual calls \<open>buildEntry(ptr)->timestamp()\<close> and
  \<open>buildEntry(ptr)->copyWithAuthor(dst, author)\<close>; on \<open>nullptr\<close> they dereference null.\<close>

definition entry_timestamp :: "abi \<Rightarrow> byte list \<Rightarrow> int \<Rightarrow> error + timespec" where
  "entry_timestamp a buf ptr =
     (case buildEntry buf ptr of
        Inl x \<Rightarrow> Inl x
      | Inr None \<Rightarrow> Inl NullDeref
      | Inr (Some FormatKind) \<Rightarrow> FormatEntry_timestamp a buf ptr
      | Inr (Some HistogramKind) \<Rightarrow> HistogramEntry_timestamp a buf ptr)"

text \<open>\<open>struct MergeItem\<close> and the two \<open>operator>\<close> that order the priority queue.\<close>

datatype MergeItem = MergeItem (item_ts: timespec) (item_index: nat)

definition timespec_gt :: "timespec \<Rightarrow> timespec \<Rightarrow> bool" where
  "timespec_gt t1 t2 \<longleftrightarrow>
     tv_sec t1 > tv_sec t2 \<or> (tv_sec t1 = tv_sec t2 \<and> tv_nsec t1 > tv_nsec t2)"

definition item_gt :: "MergeItem \<Rightarrow> MergeItem \<Rightarrow> bool" where
  "item_gt i1 i2 \<longleftrightarrow>
     timespec_gt (item_ts i1) (item_ts i2) \<or>
     (tv_sec (item_ts i1) = tv_sec (item_ts i2) \<and> tv_nsec (item_ts i1) = tv_nsec (item_ts i2) \<and>
      item_index i1 > item_index i2)"

text \<open>
  \<open>std::priority_queue<MergeItem, std::vector<MergeItem>, std::greater<MergeItem>>\<close> is
  the C++ library's. Modelled from the spec: a min-heap over \<open>(timestamp, i)\<close>; \<open>top\<close> is
  an item that is not greater than any other, \<open>pop\<close> removes it, \<open>emplace\<close> adds one. The
  queue is the list of its items.
\<close>

definition pq_top :: "MergeItem list \<Rightarrow> MergeItem" where
  "pq_top q = foldl (\<lambda>m x. if item_gt m x then x else m) (hd q) (tl q)"

definition pq_pop :: "MergeItem list \<Rightarrow> MergeItem list" where
  "pq_pop q = remove1 (pq_top q) q"

definition pq_emplace :: "MergeItem list \<Rightarrow> timespec \<Rightarrow> nat \<Rightarrow> MergeItem list" where
  "pq_emplace q t i = q @ [MergeItem t i]"

text \<open>The loop of \<open>Merger::merge\<close> that fills the queue: one item for each snapshot that
  is not empty, from index \<open>i\<close> on.\<close>

fun init_timestamps :: "abi \<Rightarrow> Snapshot list \<Rightarrow> nat \<Rightarrow> MergeItem list \<Rightarrow> error + MergeItem list" where
  "init_timestamps a [] i timestamps = Inr timestamps"
| "init_timestamps a (s # snapshots) i timestamps =
     (if mBegin s \<noteq> mEnd s then
        (case entry_timestamp a (snap_mData s) (mBegin s) of
           Inl x \<Rightarrow> Inl x
         | Inr t \<Rightarrow> init_timestamps a snapshots (Suc i) (pq_emplace timestamps t i))
      else init_timestamps a snapshots (Suc i) timestamps)"

subsection \<open>Well-formed records and snapshots\<close>

text \<open>
  A record of a snapshot, as the specification describes it: a formatted record
  \<open>START_FMT(fmt) TIMESTAMP HASH arg\<^sub>1 \<dots> END_FMT\<close> without an author, or one histogram
  frame with a \<open>HistTsEntry\<close> payload.
\<close>

datatype log_record =
    FormatRecord "byte list" "byte list" "byte list" "frame list"
  | HistogramRecord Event "byte list"

fun record_bytes :: "log_record \<Rightarrow> byte list" where
  "record_bytes (FormatRecord fmt t h args) =
     frames_bytes ([(EVENT_START_FMT, fmt), (EVENT_TIMESTAMP, t), (EVENT_HASH, h)] @ args
                   @ [(EVENT_END_FMT, [])])"
| "record_bytes (HistogramRecord ty pl) = frame_bytes ty pl"

fun wf_record :: "abi \<Rightarrow> log_record \<Rightarrow> bool" where
  "wf_record a (FormatRecord fmt t h args) \<longleftrightarrow>
     length fmt \<le> kMaxLength \<and> length t = sizeof_timespec a \<and> length h \<le> kMaxLength \<and>
     (\<forall>(ev, pl) \<in> set args. length pl \<le> kMaxLength \<and> ev \<noteq> EVENT_END_FMT)"
| "wf_record a (HistogramRecord ty pl) \<longleftrightarrow>
     (ty = EVENT_HISTOGRAM_ENTRY_TS \<or> ty = EVENT_HISTOGRAM_FLUSH) \<and>
     length pl = sizeof_HistTsEntry a"

text \<open>The timestamp a record carries, and the record as \<open>copyWithAuthor\<close> writes it.\<close>

fun record_ts :: "abi \<Rightarrow> log_record \<Rightarrow> timespec" where
  "record_ts a (FormatRecord fmt t h args) = dec_timespec a t"
| "record_ts a (HistogramRecord ty pl) = dec_timespec a (drop sizeof_hash pl)"

fun record_with_author :: "abi \<Rightarrow> byte list \<Rightarrow> 32 word \<Rightarrow> log_record \<Rightarrow> byte list" where
  "record_with_author a stack i (FormatRecord fmt t h args) =
     frames_bytes ([(EVENT_START_FMT, fmt), (EVENT_TIMESTAMP, t), (EVENT_HASH, h),
                    (EVENT_AUTHOR, enc_int i)] @ args @ [(EVENT_END_FMT, [])])"
| "record_with_author a stack i (HistogramRecord ty pl) =
     frame_bytes ty (pl @ enc_int i @ hist_padding a stack)"

text \<open>A snapshot that holds exactly the records \<open>recs\<close> between \<open>mBegin\<close> and \<open>mEnd\<close>.\<close>

definition snapshot_of :: "abi \<Rightarrow> Snapshot \<Rightarrow> log_record list \<Rightarrow> bool" where
  "snapshot_of a s recs \<longleftrightarrow>
     (\<forall>r \<in> set recs. wf_record a r) \<and>
     0 \<le> mBegin s \<and>
     mEnd s = mBegin s + int (length (concat (map record_bytes recs))) \<and>
     mEnd s \<le> int (length (snap_mData s)) \<and>
     take (length (concat (map record_bytes recs))) (drop (nat (mBegin s)) (snap_mData s))
       = concat (map record_bytes recs)"

text \<open>The order of the merge: \<open>x\<close> does not come after \<open>y\<close> when its timestamp is not greater
  and, if the timestamps are equal, its stream index is not greater.\<close>

definition merged_before :: "abi \<Rightarrow> nat \<times> log_record \<Rightarrow> nat \<times> log_record \<Rightarrow> bool" where
  "merged_before a x y \<longleftrightarrow>
     \<not> timespec_gt (record_ts a (snd x)) (record_ts a (snd y)) \<and>
     (record_ts a (snd x) = record_ts a (snd y) \<longrightarrow> fst x \<le> fst y)"

text \<open>The queue that \<open>Merger::merge\<close> starts from when the snapshots hold the record lists
  \<open>rss\<close>: one item for each list that is not empty, with the timestamp of its first record
  and its index, counted from \<open>i\<close>.\<close>

fun queue_of :: "abi \<Rightarrow> nat \<Rightarrow> log_record list list \<Rightarrow> MergeItem list" where
  "queue_of a i [] = []"
| "queue_of a i (rs # rss) =
     (if rs = [] then [] else [MergeItem (record_ts a (hd rs)) i]) @ queue_of a (Suc i) rss"

text \<open>What the merged FIFO receives for a list of records, each with the index of the
  snapshot it comes from.\<close>

definition merged_bytes :: "abi \<Rightarrow> byte list \<Rightarrow> (nat \<times> log_record) list \<Rightarrow> byte list" where
  "merged_bytes a stack out =
     concat (map (\<lambda>(i, r). record_with_author a stack (of_nat i) r) out)"

text \<open>A snapshot whose data is the records \<open>rs\<close> and nothing else.\<close>

definition snapshot_holding :: "log_record list \<Rightarrow> Snapshot" where
  "snapshot_holding rs =
     \<lparr>snap_mData = concat (map record_bytes rs), mBegin = 0,
      mEnd = int (length (concat (map record_bytes rs))), mLost = 0\<rparr>"

text \<open>A formatted record with an empty format string and no arguments, stamped with
  \<open>sec\<close> seconds: what \<open>logStart("")\<close>, \<open>logTimestamp(ts)\<close>, \<open>logHash(0)\<close> and \<open>logEnd()\<close>
  commit.\<close>

definition record_at :: "abi \<Rightarrow> int \<Rightarrow> log_record" where
  "record_at a sec =
     FormatRecord [] (enc_timespec a \<lparr>tv_sec = sec, tv_nsec = 0\<rparr>) (enc_hash 0) []"

text \<open>A client that logs such a record by hand.\<close>

definition log_record_at :: "abi \<Rightarrow> Writer \<Rightarrow> int \<Rightarrow> error + Writer" where
  "log_record_at a w sec =
     (case logStart w [] of
        Inl x \<Rightarrow> Inl x
      | Inr w1 \<Rightarrow>
          (case logTimestamp a w1 \<lparr>tv_sec = sec, tv_nsec = 0\<rparr> of
             Inl x \<Rightarrow> Inl x
           | Inr w2 \<Rightarrow>
               (case logHash w2 0 of
                  Inl x \<Rightarrow> Inl x
                | Inr w3 \<Rightarrow> logEnd w3)))"

subsection \<open>Frames committed by the writer\<close>

lemma fill_temp_payload:
  "i + n \<le> length d \<Longrightarrow> i + n \<le> unat (mLength e) \<Longrightarrow> mData e = Some d \<Longrightarrow>
   fill_temp e (i + 2) n = Inr (take n (drop i d))"
proof (induction n arbitrary: i)
  case 0
  then show ?case by simp
next
  case (Suc n)
  have step: "fill_temp e (Suc i + 2) n = Inr (take n (drop (Suc i) d))"
    using Suc.IH [of "Suc i"] Suc.prems by simp
  have rd: "readAt e (i + 2) = Inr (sint (d ! i))"
    using Suc.prems by (simp add: readAt_def)
  have "take (Suc n) (drop i d) = d ! i # take n (drop (Suc i) d)"
    using Suc.prems by (simp add: take_Suc_conv_app_nth Cons_nth_drop_Suc [symmetric])
  then show ?case using step rd by simp
qed

lemma fill_temp_append:
  "fill_temp e i (m + n) =
     (case fill_temp e i m of
        Inl x \<Rightarrow> Inl x
      | Inr bs \<Rightarrow> (case fill_temp e (i + m) n of Inl x \<Rightarrow> Inl x | Inr cs \<Rightarrow> Inr (bs @ cs)))"
  by (induction m arbitrary: i) (auto split: sum.splits)

lemma fill_temp_frame:
  assumes "mLength e = 0 \<or> (\<exists>d. mData e = Some d \<and> unat (mLength e) \<le> length d)"
  shows "fill_temp e 0 (unat (mLength e) + kOverhead) =
         Inr ([mEvent e, mLength e] @ take (unat (mLength e)) (data_bytes (mData e))
              @ [mLength e])"
proof -
  let ?L = "unat (mLength e)"
  have head: "fill_temp e 0 2 = Inr [mEvent e, mLength e]"
    by (simp add: readAt_def numeral_2_eq_2)
  have tail: "fill_temp e (0 + 2 + ?L) 1 = Inr [mLength e]"
    by (simp add: readAt_def)
  have mid: "fill_temp e (0 + 2) ?L = Inr (take ?L (data_bytes (mData e)))"
  proof (cases "mLength e = 0")
    case True
    then show ?thesis by simp
  next
    case False
    then obtain d where d: "mData e = Some d" "?L \<le> length d" using assms by auto
    then show ?thesis using fill_temp_payload [of 0 ?L d e] by simp
  qed
  have "fill_temp e 0 (2 + (?L + 1)) =
        Inr ([mEvent e, mLength e] @ take ?L (data_bytes (mData e)) @ [mLength e])"
    by (simp only: fill_temp_append [of e 0 2] fill_temp_append [of e "0 + 2" ?L 1]
        head mid tail sum.case)
  moreover have "?L + kOverhead = 2 + (?L + 1)" by (simp add: kOverhead_def)
  ultimately show ?thesis by (simp only:)
qed

lemma log_trusted_frame:
  assumes "mEnabled w" and "mFifoWriter w = Some out"
    and "mLength e = 0 \<or> (\<exists>d. mData e = Some d \<and> unat (mLength e) \<le> length d)"
  shows "log_trusted w e =
         Inr (w\<lparr>mFifoWriter := Some (out @ [mEvent e, mLength e]
                @ take (unat (mLength e)) (data_bytes (mData e)) @ [mLength e])\<rparr>)"
  using assms(1,2) fill_temp_frame [OF assms(3)]
  by (simp add: log_trusted_def fifo_write_def)

lemma event_valid_iff:
  "(ev \<noteq> EVENT_RESERVED \<and> \<not> ev \<ge> EVENT_UPPER_BOUND) \<longleftrightarrow> (0 < unat ev \<and> unat ev < 12)"
  by (auto simp: EVENT_RESERVED_def EVENT_UPPER_BOUND_def word_le_nat_alt unat_gt_0)

lemma log_event_frame:
  assumes "mEnabled w" and "mFifoWriter w = Some out"
    and "len \<le> length d" and "len \<le> kMaxLength"
    and "ev \<noteq> EVENT_RESERVED" and "ev < EVENT_UPPER_BOUND"
  shows "log_event w ev (Some d) len =
         Inr (w\<lparr>mFifoWriter := Some (out @ frame_bytes ev (take len d))\<rparr>)"
proof -
  let ?e = "\<lparr>mEvent = ev, mLength = of_nat len, mData = Some d\<rparr>"
  have len: "unat (of_nat len :: byte) = len"
    using assms(4) by (simp add: kMaxLength_def unat_of_nat)
  have "log_trusted w ?e =
         Inr (w\<lparr>mFifoWriter := Some (out @ [mEvent ?e, mLength ?e]
                @ take (unat (mLength ?e)) (data_bytes (mData ?e)) @ [mLength ?e])\<rparr>)"
    by (rule log_trusted_frame) (use assms len in auto)
  moreover have "length (take len d) = len" using assms(3) by simp
  ultimately show ?thesis
    using assms len by (simp add: log_event_def frame_bytes_def)
qed

lemma hasConsistentLength_frame:
  assumes "length payload \<le> kMaxLength"
  shows "hasConsistentLength (pre @ frame_bytes ev payload @ post) (int (length pre)) = Inr True"
proof -
  have len: "uint (of_nat (length payload) :: byte) = int (length payload)"
    using assms by (simp add: kMaxLength_def uint_nat unat_of_nat)
  have r1: "rd (pre @ frame_bytes ev payload @ post) (int (length pre) + off_length)
            = Inr (of_nat (length payload))"
    by (simp add: rd_def off_length_def frame_bytes_def nth_append nat_add_distrib)
  have r2: "rd (pre @ frame_bytes ev payload @ post)
              (int (length pre) + (int (length payload) + int kOverhead + kPreviousLengthOffset))
            = Inr (of_nat (length payload))"
    by (simp add: rd_def kOverhead_def kPreviousLengthOffset_def frame_bytes_def nth_append
        nat_add_distrib)
  show ?thesis
    by (simp add: hasConsistentLength_def r1 len r2)
qed


text \<open>
  Claim C6. Every frame the writer commits to the FIFO goes through the trusted path of
  \<open>Writer::log(const Entry *, bool)\<close>; for an entry with event tag \<open>mEvent\<close>, length byte
  \<open>L = mLength\<close> (at most \<open>kMaxLength\<close>) and \<open>L\<close> readable payload bytes, the bytes handed to
  the FIFO are the tag, \<open>L\<close>, the \<open>L\<close> payload bytes and \<open>L\<close> again, and
  \<open>hasConsistentLength\<close> holds at the start of the frame.
\<close>

theorem writer_frame_has_consistent_length:
  assumes "mEnabled w" and "mFifoWriter w = Some out"
    and "mLength e = 0 \<or> (\<exists>d. mData e = Some d \<and> unat (mLength e) \<le> length d)"
  shows "log_entry w e True =
           Inr (w\<lparr>mFifoWriter := Some (out @ [mEvent e, mLength e]
                  @ take (unat (mLength e)) (data_bytes (mData e)) @ [mLength e])\<rparr>)
         \<and> length (take (unat (mLength e)) (data_bytes (mData e))) = unat (mLength e)
         \<and> unat (mLength e) \<le> kMaxLength
         \<and> hasConsistentLength
              (out @ [mEvent e, mLength e] @ take (unat (mLength e)) (data_bytes (mData e))
                 @ [mLength e]) (int (length out)) = Inr True"
proof -
  let ?pl = "take (unat (mLength e)) (data_bytes (mData e))"
  have len: "length ?pl = unat (mLength e)"
    using assms(3) by (auto simp: unat_eq_zero)
  have bound: "unat (mLength e) \<le> kMaxLength"
    using unsigned_less [of "mLength e", where 'a = nat] by (simp add: kMaxLength_def)
  have fb: "frame_bytes (mEvent e) ?pl = [mEvent e, mLength e] @ ?pl @ [mLength e]"
    by (simp only: frame_bytes_def len of_nat_unat unsigned_word_eqI ucast_id)
  have "hasConsistentLength (out @ frame_bytes (mEvent e) ?pl @ []) (int (length out)) = Inr True"
    by (rule hasConsistentLength_frame) (simp only: len bound)
  then have cons: "hasConsistentLength (out @ [mEvent e, mLength e] @ ?pl @ [mLength e])
                     (int (length out)) = Inr True"
    by (simp only: fb append_Nil2 append_assoc)
  have "log_entry w e True = log_trusted w e"
    using assms(1) by (simp add: log_entry_def)
  then show ?thesis
    using log_trusted_frame [OF assms] len bound cons by simp
qed

theorem writer_frame_has_consistent_length_witness:
  "log_entry (Writer_new True 7 ''a'') \<lparr>mEvent = EVENT_INTEGER, mLength = 4, mData = Some [42, 0, 0, 0]\<rparr> True
     = Inr ((Writer_new True 7 ''a'')\<lparr>mFifoWriter := Some [EVENT_INTEGER, 4, 42, 0, 0, 0, 4]\<rparr>)
   \<and> hasConsistentLength [EVENT_INTEGER, 4, 42, 0, 0, 0, 4] 0 = Inr True"
proof -
  let ?w = "Writer_new True 7 ''a''"
  let ?e = "\<lparr>mEvent = EVENT_INTEGER, mLength = 4, mData = Some [42, 0, 0, 0]\<rparr>"
  have h1: "mEnabled ?w" by (simp add: Writer_new_def Let_def)
  have h2: "mFifoWriter ?w = Some []" by (simp add: Writer_new_def Let_def)
  have h3: "mLength ?e = 0 \<or> (\<exists>d. mData ?e = Some d \<and> unat (mLength ?e) \<le> length d)" by simp
  show ?thesis
    using writer_frame_has_consistent_length [OF h1 h2 h3] by simp
qed

lemma length_le_bytes [simp]: "length (le_bytes n v) = n"
  by (induction n arbitrary: v) auto

lemma strlen_le: "strlen s \<le> length s"
  by (simp add: strlen_def length_takeWhile_le)

lemma take_c_bytes:
  "take (if strlen s > kMaxLength then kMaxLength else strlen s) (c_bytes s) = string_payload s"
proof -
  let ?n = "if strlen s > kMaxLength then kMaxLength else strlen s"
  have n: "?n = min kMaxLength (strlen s)" by simp
  have "?n \<le> length s" using strlen_le [of s] by simp
  then have "take ?n (c_bytes s) = map of_char (take ?n s)"
    by (simp add: c_bytes_def take_map)
  moreover have "take kMaxLength (takeWhile (\<lambda>c. c \<noteq> NUL) s) = take ?n s"
    unfolding n strlen_def
    by (subst takeWhile_eq_take) (simp add: min.commute)
  ultimately show ?thesis by (simp add: string_payload_def)
qed

lemma length_string_payload: "length (string_payload s) \<le> kMaxLength"
  by (simp add: string_payload_def)

lemma log_string_frame:
  assumes "mEnabled w" and "mFifoWriter w = Some out"
  shows "log_string w (Some s) =
         Inr (w\<lparr>mFifoWriter := Some (out @ frame_bytes EVENT_STRING (string_payload s))\<rparr>)"
proof -
  let ?n = "if strlen s > kMaxLength then kMaxLength else strlen s"
  have "log_event w EVENT_STRING (Some (c_bytes s)) ?n =
        Inr (w\<lparr>mFifoWriter := Some (out @ frame_bytes EVENT_STRING (take ?n (c_bytes s)))\<rparr>)"
    using assms strlen_le [of s]
    by (intro log_event_frame) (auto simp: c_bytes_def event_defs)
  then show ?thesis
    using assms(1) by (simp add: log_string_def Let_def take_c_bytes)
qed

lemma logStart_frame:
  assumes "mEnabled w" and "mFifoWriter w = Some out"
  shows "logStart w s =
         Inr (w\<lparr>mFifoWriter := Some (out @ frame_bytes EVENT_START_FMT (string_payload s))\<rparr>)"
proof -
  let ?n = "if strlen s > kMaxLength then kMaxLength else strlen s"
  have "log_event w EVENT_START_FMT (Some (c_bytes s)) ?n =
        Inr (w\<lparr>mFifoWriter := Some (out @ frame_bytes EVENT_START_FMT (take ?n (c_bytes s)))\<rparr>)"
    using assms strlen_le [of s]
    by (intro log_event_frame) (auto simp: c_bytes_def event_defs)
  then show ?thesis
    using assms(1) by (simp add: logStart_def Let_def take_c_bytes)
qed

lemma sizeof_timespec_le: "abi_ok a \<Longrightarrow> sizeof_timespec a \<le> kMaxLength"
  by (simp add: abi_ok_def sizeof_timespec_def)

lemma length_enc_timespec: "length (enc_timespec a ts) = sizeof_timespec a"
  by (simp add: enc_timespec_def sizeof_timespec_def)

lemma logTimestamp_frame:
  assumes "mEnabled w" and "mFifoWriter w = Some out" and "abi_ok a"
  shows "logTimestamp a w ts =
         Inr (w\<lparr>mFifoWriter := Some (out @ frame_bytes EVENT_TIMESTAMP (enc_timespec a ts))\<rparr>)"
proof -
  have "log_event w EVENT_TIMESTAMP (Some (enc_timespec a ts)) (sizeof_timespec a) =
        Inr (w\<lparr>mFifoWriter := Some (out @ frame_bytes EVENT_TIMESTAMP
               (take (sizeof_timespec a) (enc_timespec a ts)))\<rparr>)"
    using assms sizeof_timespec_le [OF assms(3)]
    by (intro log_event_frame) (auto simp: length_enc_timespec event_defs)
  then show ?thesis
    using assms(1) by (simp add: logTimestamp_def length_enc_timespec)
qed

lemma logTimestamp_now_frame:
  assumes "mEnabled w" and "mFifoWriter w = Some out" and "abi_ok a"
  shows "logTimestamp_now a w (Some ts) =
         Inr (w\<lparr>mFifoWriter := Some (out @ frame_bytes EVENT_TIMESTAMP (enc_timespec a ts))\<rparr>)"
  using logTimestamp_frame [OF assms, of ts] assms(1)
  by (simp add: logTimestamp_def logTimestamp_now_def)

lemma logInteger_frame:
  assumes "mEnabled w" and "mFifoWriter w = Some out"
  shows "logInteger w x =
         Inr (w\<lparr>mFifoWriter := Some (out @ frame_bytes EVENT_INTEGER (enc_int x))\<rparr>)"
proof -
  have "log_event w EVENT_INTEGER (Some (enc_int x)) sizeof_int =
        Inr (w\<lparr>mFifoWriter := Some (out @ frame_bytes EVENT_INTEGER (take sizeof_int (enc_int x)))\<rparr>)"
    using assms
    by (intro log_event_frame) (auto simp: enc_int_def sizeof_int_def kMaxLength_def event_defs)
  then show ?thesis
    using assms(1) by (simp add: logInteger_def enc_int_def)
qed

lemma logFloat_frame:
  assumes "mEnabled w" and "mFifoWriter w = Some out"
  shows "logFloat w x =
         Inr (w\<lparr>mFifoWriter := Some (out @ frame_bytes EVENT_FLOAT (le_bytes 4 (uint x)))\<rparr>)"
proof -
  have "log_event w EVENT_FLOAT (Some (le_bytes 4 (uint x))) 4 =
        Inr (w\<lparr>mFifoWriter := Some (out @ frame_bytes EVENT_FLOAT (take 4 (le_bytes 4 (uint x))))\<rparr>)"
    using assms
    by (intro log_event_frame) (auto simp: kMaxLength_def event_defs)
  then show ?thesis
    using assms(1) by (simp add: logFloat_def)
qed

lemma logHash_frame:
  assumes "mEnabled w" and "mFifoWriter w = Some out"
  shows "logHash w h =
         Inr (w\<lparr>mFifoWriter := Some (out @ frame_bytes EVENT_HASH (enc_hash h))\<rparr>)"
proof -
  have "log_event w EVENT_HASH (Some (enc_hash h)) sizeof_hash =
        Inr (w\<lparr>mFifoWriter := Some (out @ frame_bytes EVENT_HASH (take sizeof_hash (enc_hash h)))\<rparr>)"
    using assms
    by (intro log_event_frame) (auto simp: enc_hash_def sizeof_hash_def kMaxLength_def event_defs)
  then show ?thesis
    using assms(1) by (simp add: logHash_def enc_hash_def)
qed



lemma logPID_frame:
  assumes "mEnabled w" and "mFifoWriter w = Some out" and "writer_inv w"
  shows "logPID w =
         Inr (w\<lparr>mFifoWriter := Some (out @ frame_bytes EVENT_PID (pid_payload w))\<rparr>)"
proof -
  from assms(1,3) obtain tag where tag: "mPidTag w = Some tag" "mPidTagSize w = length tag"
    "length tag \<le> 15 + sizeof_int"
    by (auto simp: writer_inv_def split: option.splits)
  have "log_event w EVENT_PID (Some tag) (mPidTagSize w) =
        Inr (w\<lparr>mFifoWriter := Some (out @ frame_bytes EVENT_PID (take (mPidTagSize w) tag))\<rparr>)"
    using assms(1,2) tag
    by (intro log_event_frame) (auto simp: sizeof_int_def kMaxLength_def event_defs)
  then show ?thesis
    using assms(1) tag by (simp add: logPID_def pid_payload_def)
qed

lemma logEnd_frame:
  assumes "mEnabled w" and "mFifoWriter w = Some out"
  shows "logEnd w = Inr (w\<lparr>mFifoWriter := Some (out @ frame_bytes EVENT_END_FMT [])\<rparr>)"
  using assms log_trusted_frame [of w out "\<lparr>mEvent = EVENT_END_FMT, mLength = 0, mData = None\<rparr>"]
  by (simp add: logEnd_def log_entry_def frame_bytes_def)

lemma frames_bytes_Cons [simp]:
  "frames_bytes ((ev, pl) # fs) = frame_bytes ev pl @ frames_bytes fs"
  by (simp add: frames_bytes_def)

lemma frames_bytes_Nil [simp]: "frames_bytes [] = []"
  by (simp add: frames_bytes_def)

lemma frames_bytes_append [simp]:
  "frames_bytes (fs @ gs) = frames_bytes fs @ frames_bytes gs"
  by (simp add: frames_bytes_def)

lemma writer_inv_fifo [simp]:
  "writer_inv w \<Longrightarrow> writer_inv (w\<lparr>mFifoWriter := Some out\<rparr>)"
  by (auto simp: writer_inv_def split: option.splits)

lemma fifo_update_same: "mFifoWriter w = Some out \<Longrightarrow> w\<lparr>mFifoWriter := Some out\<rparr> = w"
  by (cases w) simp

lemma pid_payload_fifo [simp]:
  "pid_payload (w\<lparr>mFifoWriter := x\<rparr>) = pid_payload w"
  by (simp add: pid_payload_def)

lemma logVFormat_loop_frames:
  "abi_ok a \<Longrightarrow> mEnabled w \<Longrightarrow> writer_inv w \<Longrightarrow> mFifoWriter w = Some out \<Longrightarrow>
         pid_payload w = pid \<Longrightarrow> format_arg_frames cvt a pid fmt argp = Some frames \<Longrightarrow>
         logVFormat_loop cvt a w fmt argp =
           Inr (w\<lparr>mFifoWriter := Some (out @ frames_bytes frames)\<rparr>)"
proof (induction cvt a pid fmt argp arbitrary: w out frames
       rule: format_arg_frames.induct)
  case (1 cvt a pid args)
  then show ?case by (simp add: fifo_update_same)
next
  case (2 cvt a pid c args)
  then show ?case by (simp add: fifo_update_same)
next
  case (3 cvt a pid c d fmt args)
  note en = \<open>mEnabled w\<close> and inv = \<open>writer_inv w\<close> and ff = \<open>mFifoWriter w = Some out\<close>
  note ok = \<open>abi_ok a\<close>
  note pp = \<open>pid_payload w = pid\<close>
  note fr = \<open>format_arg_frames cvt a pid (c # d # fmt) args = Some frames\<close>
  show ?case
  proof (cases "c = NUL")
    case True
    then show ?thesis using fr ff by (auto simp: fifo_update_same)
  next
    case c0: False
    show ?thesis
    proof (cases "c = CHR ''%''")
      case False
      then show ?thesis using c0 fr "3.IH"(1) [OF c0 False ok en inv ff pp] by simp
    next
      case pc: True
      then have nc: "\<not> c \<noteq> CHR ''%''" by simp
      consider (s) "d = CHR ''s''" | (t) "d = CHR ''t''" | (d) "d = CHR ''d''"
        | (f) "d = CHR ''f''" | (p) "d = CHR ''p''" | (nul) "d = NUL"
        | (other) "d \<noteq> CHR ''s''" "d \<noteq> CHR ''t''" "d \<noteq> CHR ''d''" "d \<noteq> CHR ''f''"
                  "d \<noteq> CHR ''p''" "d \<noteq> NUL"
        by blast
      then show ?thesis
      proof cases
        case s
        from fr c0 pc s obtain str args' fs where a: "args = VaString (Some str) # args'"
          and fs: "format_arg_frames cvt a pid fmt args' = Some fs"
          and frames: "frames = (EVENT_STRING, string_payload str) # fs"
          by (auto split: list.splits va_arg.splits option.splits)
        let ?w' = "w\<lparr>mFifoWriter := Some (out @ frame_bytes EVENT_STRING (string_payload str))\<rparr>"
        have "logVFormat_loop cvt a ?w' fmt args' =
              Inr (?w'\<lparr>mFifoWriter := Some ((out @ frame_bytes EVENT_STRING (string_payload str))
                     @ frames_bytes fs)\<rparr>)"
          by (rule "3.IH"(2) [OF c0 nc s a refl refl]) (use ok en inv fs pp in simp_all)
        then show ?thesis
          using c0 pc s a frames log_string_frame [OF en ff, of str] by simp
      next
        case t
        from fr c0 pc t obtain ts args' fs where a: "args = VaTimespec ts # args'"
          and fs: "format_arg_frames cvt a pid fmt args' = Some fs"
          and frames: "frames = (EVENT_TIMESTAMP, enc_timespec a ts) # fs"
          by (auto simp: NUL_def split: list.splits va_arg.splits option.splits)
        let ?w' = "w\<lparr>mFifoWriter := Some (out @ frame_bytes EVENT_TIMESTAMP (enc_timespec a ts))\<rparr>"
        have "logVFormat_loop cvt a ?w' fmt args' =
              Inr (?w'\<lparr>mFifoWriter := Some ((out @ frame_bytes EVENT_TIMESTAMP (enc_timespec a ts))
                     @ frames_bytes fs)\<rparr>)"
          by (rule "3.IH"(3) [OF c0 nc _ t a refl]) (use t ok en inv fs pp in simp_all)
        then show ?thesis
          using c0 pc t a frames logTimestamp_frame [OF en ff ok, of ts] by simp
      next
        case d
        from fr c0 pc d obtain i args' fs where a: "args = VaInt i # args'"
          and fs: "format_arg_frames cvt a pid fmt args' = Some fs"
          and frames: "frames = (EVENT_INTEGER, enc_int i) # fs"
          by (auto simp: NUL_def split: list.splits va_arg.splits option.splits)
        let ?w' = "w\<lparr>mFifoWriter := Some (out @ frame_bytes EVENT_INTEGER (enc_int i))\<rparr>"
        have "logVFormat_loop cvt a ?w' fmt args' =
              Inr (?w'\<lparr>mFifoWriter := Some ((out @ frame_bytes EVENT_INTEGER (enc_int i))
                     @ frames_bytes fs)\<rparr>)"
          by (rule "3.IH"(4) [OF c0 nc _ _ d a refl]) (use d ok en inv fs pp in simp_all)
        then show ?thesis
          using c0 pc d a frames logInteger_frame [OF en ff, of i] by simp
      next
        case f
        from fr c0 pc f obtain x args' fs where a: "args = VaDouble x # args'"
          and fs: "format_arg_frames cvt a pid fmt args' = Some fs"
          and frames: "frames = (EVENT_FLOAT, le_bytes 4 (uint (cvt x))) # fs"
          by (auto simp: NUL_def split: list.splits va_arg.splits option.splits)
        let ?w' = "w\<lparr>mFifoWriter := Some (out @ frame_bytes EVENT_FLOAT (le_bytes 4 (uint (cvt x))))\<rparr>"
        have "logVFormat_loop cvt a ?w' fmt args' =
              Inr (?w'\<lparr>mFifoWriter := Some ((out @ frame_bytes EVENT_FLOAT (le_bytes 4 (uint (cvt x))))
                     @ frames_bytes fs)\<rparr>)"
          by (rule "3.IH"(5) [OF c0 nc _ _ _ f a refl]) (use f ok en inv fs pp in simp_all)
        then show ?thesis
          using c0 pc f a frames logFloat_frame [OF en ff, of "cvt x"] by simp
      next
        case p
        from fr c0 pc p obtain fs where
          fs: "format_arg_frames cvt a pid fmt args = Some fs"
          and frames: "frames = (EVENT_PID, pid) # fs"
          by (auto simp: NUL_def)
        let ?w' = "w\<lparr>mFifoWriter := Some (out @ frame_bytes EVENT_PID (pid_payload w))\<rparr>"
        have "logVFormat_loop cvt a ?w' fmt args =
              Inr (?w'\<lparr>mFifoWriter := Some ((out @ frame_bytes EVENT_PID (pid_payload w))
                     @ frames_bytes fs)\<rparr>)"
          by (rule "3.IH"(6) [OF c0 nc _ _ _ _ p]) (use p ok en inv fs pp in simp_all)
        then show ?thesis
          using c0 pc p frames pp logPID_frame [OF en ff inv] by simp
      next
        case nul
        then show ?thesis using c0 pc fr ff by (auto simp: NUL_def fifo_update_same)
      next
        case other
        have "logVFormat_loop cvt a w fmt args = Inr (w\<lparr>mFifoWriter := Some (out @ frames_bytes frames)\<rparr>)"
          by (rule "3.IH"(7) [OF c0 nc other ok en inv ff pp]) (use pc other fr c0 in simp_all)
        then show ?thesis using c0 pc other by simp
      qed
    qed
  qed
qed

lemma format_arg_frames_bound:
  "abi_ok a \<Longrightarrow> length pid \<le> kMaxLength \<Longrightarrow> format_arg_frames cvt a pid fmt args = Some frames \<Longrightarrow>
   \<forall>(ev, pl) \<in> set frames. length pl \<le> kMaxLength"
proof (induction cvt a pid fmt args arbitrary: frames rule: format_arg_frames.induct)
  case (1 cvt a pid args)
  then show ?case by simp
next
  case (2 cvt a pid c args)
  then show ?case by simp
next
  case (3 cvt a pid c d fmt args)
  note ok = \<open>abi_ok a\<close> and pb = \<open>length pid \<le> kMaxLength\<close>
  note fr = \<open>format_arg_frames cvt a pid (c # d # fmt) args = Some frames\<close>
  have ts: "\<And>t. length (enc_timespec a t) \<le> kMaxLength"
    using sizeof_timespec_le [OF ok] by (simp add: length_enc_timespec)
  have i: "\<And>i. length (enc_int i) \<le> kMaxLength"
    by (simp add: enc_int_def sizeof_int_def kMaxLength_def)
  have f: "\<And>x. length (le_bytes 4 x) \<le> kMaxLength"
    by (simp add: kMaxLength_def)
  show ?case
  proof (cases "c = NUL")
    case True
    then show ?thesis using fr by auto
  next
    case c0: False
    show ?thesis
    proof (cases "c = CHR ''%''")
      case False
      then show ?thesis using c0 fr "3.IH"(1) [OF c0 False ok pb] by simp
    next
      case pc: True
      then have nc: "\<not> c \<noteq> CHR ''%''" by simp
      consider (s) "d = CHR ''s''" | (t) "d = CHR ''t''" | (d) "d = CHR ''d''"
        | (f) "d = CHR ''f''" | (p) "d = CHR ''p''" | (nul) "d = NUL"
        | (other) "d \<noteq> CHR ''s''" "d \<noteq> CHR ''t''" "d \<noteq> CHR ''d''" "d \<noteq> CHR ''f''"
                  "d \<noteq> CHR ''p''" "d \<noteq> NUL"
        by blast
      then show ?thesis
      proof cases
        case s
        from fr c0 pc s obtain str args' fs where a: "args = VaString (Some str) # args'"
          and fs: "format_arg_frames cvt a pid fmt args' = Some fs"
          and frames: "frames = (EVENT_STRING, string_payload str) # fs"
          by (auto split: list.splits va_arg.splits option.splits)
        show ?thesis
          using "3.IH"(2) [OF c0 nc s a refl refl ok pb fs] frames length_string_payload [of str]
          by simp
      next
        case t
        from fr c0 pc t obtain x args' fs where a: "args = VaTimespec x # args'"
          and fs: "format_arg_frames cvt a pid fmt args' = Some fs"
          and frames: "frames = (EVENT_TIMESTAMP, enc_timespec a x) # fs"
          by (auto simp: NUL_def split: list.splits va_arg.splits option.splits)
        have ns: "d \<noteq> CHR ''s''" using t by simp
        show ?thesis
          using "3.IH"(3) [OF c0 nc ns t a refl ok pb fs] frames ts by simp
      next
        case d
        from fr c0 pc d obtain x args' fs where a: "args = VaInt x # args'"
          and fs: "format_arg_frames cvt a pid fmt args' = Some fs"
          and frames: "frames = (EVENT_INTEGER, enc_int x) # fs"
          by (auto simp: NUL_def split: list.splits va_arg.splits option.splits)
        have ns: "d \<noteq> CHR ''s''" "d \<noteq> CHR ''t''" using d by simp_all
        show ?thesis
          using "3.IH"(4) [OF c0 nc ns d a refl ok pb fs] frames i by simp
      next
        case f
        from fr c0 pc f obtain x args' fs where a: "args = VaDouble x # args'"
          and fs: "format_arg_frames cvt a pid fmt args' = Some fs"
          and frames: "frames = (EVENT_FLOAT, le_bytes 4 (uint (cvt x))) # fs"
          by (auto simp: NUL_def split: list.splits va_arg.splits option.splits)
        have ns: "d \<noteq> CHR ''s''" "d \<noteq> CHR ''t''" "d \<noteq> CHR ''d''" using f by simp_all
        show ?thesis
          using "3.IH"(5) [OF c0 nc ns f a refl ok pb fs] frames by (simp add: kMaxLength_def)
      next
        case p
        from fr c0 pc p obtain fs where
          fs: "format_arg_frames cvt a pid fmt args = Some fs"
          and frames: "frames = (EVENT_PID, pid) # fs"
          by (auto simp: NUL_def)
        have ns: "d \<noteq> CHR ''s''" "d \<noteq> CHR ''t''" "d \<noteq> CHR ''d''" "d \<noteq> CHR ''f''"
          using p by simp_all
        show ?thesis
          using "3.IH"(6) [OF c0 nc ns p ok pb fs] frames pb by simp
      next
        case nul
        then show ?thesis using c0 pc fr by (auto simp: NUL_def)
      next
        case other
        have "format_arg_frames cvt a pid fmt args = Some frames"
          using c0 pc other fr by simp
        then show ?thesis
          using "3.IH"(7) [OF c0 nc other ok pb] by simp
      qed
    qed
  qed
qed

lemma pid_payload_bound: "writer_inv w \<Longrightarrow> mEnabled w \<Longrightarrow> length (pid_payload w) \<le> kMaxLength"
  by (auto simp: writer_inv_def pid_payload_def sizeof_int_def kMaxLength_def split: option.splits)

lemma writer_inv_new: "strlen procName \<le> 15 \<Longrightarrow> writer_inv (Writer_new shared pid procName)"
  using strlen_le [of procName]
  by (simp add: writer_inv_def Writer_new_def Let_def enc_int_def sizeof_int_def)

lemma writer_inv_default: "writer_inv Writer_default"
  by (simp add: writer_inv_def Writer_default_def)

lemma writer_inv_setEnabled: "writer_inv w \<Longrightarrow> writer_inv (snd (setEnabled w b))"
  by (auto simp: writer_inv_def setEnabled_def split: option.splits)

text \<open>
  Claim C1. On an enabled writer, a call \<open>logFormat(fmt, hash, args...)\<close> whose clock read
  succeeds and whose arguments are those the specifiers of \<open>fmt\<close> ask for, every string
  argument non-null, hands to the FIFO exactly the frames \<open>START_FMT\<close> (the format string
  cut to \<open>kMaxLength\<close>), \<open>TIMESTAMP\<close>, \<open>HASH\<close>, one argument frame per specifier as the
  format grammar says, and \<open>END_FMT\<close>; each payload is at most \<open>kMaxLength\<close> bytes long.
\<close>

theorem logFormat_emits_frame_sequence:
  assumes "abi_ok a" and "writer_inv w" and "mEnabled w" and "mFifoWriter w = Some out"
    and "format_arg_frames cvt a (pid_payload w) fmt argp = Some frames"
  shows "logFormat cvt a w (Some ts) fmt hash argp =
           Inr (w\<lparr>mFifoWriter := Some (out @ frames_bytes
                  ([(EVENT_START_FMT, string_payload fmt), (EVENT_TIMESTAMP, enc_timespec a ts),
                    (EVENT_HASH, enc_hash hash)] @ frames @ [(EVENT_END_FMT, [])]))\<rparr>)
         \<and> (\<forall>(ev, pl) \<in> set ([(EVENT_START_FMT, string_payload fmt),
                                 (EVENT_TIMESTAMP, enc_timespec a ts),
                                 (EVENT_HASH, enc_hash hash)] @ frames @ [(EVENT_END_FMT, [])]).
               length pl \<le> kMaxLength)"
proof -
  let ?f1 = "frame_bytes EVENT_START_FMT (string_payload fmt)"
  let ?f2 = "frame_bytes EVENT_TIMESTAMP (enc_timespec a ts)"
  let ?f3 = "frame_bytes EVENT_HASH (enc_hash hash)"
  let ?o1 = "out @ ?f1"
  let ?o2 = "out @ ?f1 @ ?f2"
  let ?o3 = "out @ ?f1 @ ?f2 @ ?f3"
  let ?o4 = "out @ ?f1 @ ?f2 @ ?f3 @ frames_bytes frames"
  let ?w1 = "w\<lparr>mFifoWriter := Some ?o1\<rparr>"
  let ?w2 = "w\<lparr>mFifoWriter := Some ?o2\<rparr>"
  let ?w3 = "w\<lparr>mFifoWriter := Some ?o3\<rparr>"
  let ?w4 = "w\<lparr>mFifoWriter := Some ?o4\<rparr>"
  have s1: "logStart w fmt = Inr ?w1"
    by (rule logStart_frame [OF assms(3,4)])
  have s2: "logTimestamp_now a ?w1 (Some ts) = Inr ?w2"
    using logTimestamp_now_frame [of ?w1 ?o1 a ts] assms(1,3) by simp
  have s3: "logHash ?w2 hash = Inr ?w3"
    using logHash_frame [of ?w2 ?o2 hash] assms(3) by simp
  have s4: "logVFormat_loop cvt a ?w3 fmt argp = Inr ?w4"
    using logVFormat_loop_frames [of a ?w3 ?o3 "pid_payload w" cvt fmt argp frames] assms
    by simp
  have s5: "logEnd ?w4 = Inr (w\<lparr>mFifoWriter := Some (out @ ?f1 @ ?f2 @ ?f3 @ frames_bytes frames
                                   @ frame_bytes EVENT_END_FMT [])\<rparr>)"
    using logEnd_frame [of ?w4 ?o4] assms(3) by simp
  have run: "logFormat cvt a w (Some ts) fmt hash argp =
             Inr (w\<lparr>mFifoWriter := Some (out @ ?f1 @ ?f2 @ ?f3 @ frames_bytes frames
                    @ frame_bytes EVENT_END_FMT [])\<rparr>)"
    using assms(3) by (simp add: logFormat_def logVFormat_def s1 s2 s3 s4 s5)
  have b0: "length (string_payload fmt) \<le> kMaxLength" by (rule length_string_payload)
  have b1: "length (enc_timespec a ts) \<le> kMaxLength"
    using sizeof_timespec_le [OF assms(1)] by (simp add: length_enc_timespec)
  have b2: "length (enc_hash hash) \<le> kMaxLength"
    by (simp add: enc_hash_def sizeof_hash_def kMaxLength_def)
  have b3: "\<forall>(ev, pl) \<in> set frames. length pl \<le> kMaxLength"
    by (rule format_arg_frames_bound [OF assms(1) pid_payload_bound [OF assms(2,3)] assms(5)])
  show ?thesis
    using run b0 b1 b2 b3 by simp
qed

theorem logFormat_emits_frame_sequence_witness:
  "logFormat ucast lp64 (Writer_new True 1234 ''audio'') (Some \<lparr>tv_sec = 5, tv_nsec = 7\<rparr>)
     ''x=%d pid=%p'' 0xDEADBEEFCAFEBABE [VaInt 7]
   = Inr ((Writer_new True 1234 ''audio'')\<lparr>mFifoWriter := Some ([] @ frames_bytes
        ([(EVENT_START_FMT, map of_char ''x=%d pid=%p''),
          (EVENT_TIMESTAMP, [5, 0, 0, 0, 0, 0, 0, 0, 7, 0, 0, 0, 0, 0, 0, 0]),
          (EVENT_HASH, [0xBE, 0xBA, 0xFE, 0xCA, 0xEF, 0xBE, 0xAD, 0xDE])]
         @ [(EVENT_INTEGER, [7, 0, 0, 0]),
            (EVENT_PID, [0xD2, 4, 0, 0] @ map of_char ''audio'')]
         @ [(EVENT_END_FMT, [])]))\<rparr>)"
proof -
  let ?w = "Writer_new True 1234 ''audio''"
  have h1: "abi_ok lp64" by code_simp
  have h2: "writer_inv ?w" by code_simp
  have h3: "mEnabled ?w" by code_simp
  have h4: "mFifoWriter ?w = Some []" by code_simp
  have h5: "format_arg_frames ucast lp64 (pid_payload ?w) ''x=%d pid=%p'' [VaInt 7]
            = Some [(EVENT_INTEGER, [7, 0, 0, 0]), (EVENT_PID, [0xD2, 4, 0, 0] @ map of_char ''audio'')]"
    by code_simp
  have e2: "enc_timespec lp64 \<lparr>tv_sec = 5, tv_nsec = 7\<rparr>
            = [5, 0, 0, 0, 0, 0, 0, 0, 7, 0, 0, 0, 0, 0, 0, 0]"
    by code_simp
  have e3: "enc_hash 0xDEADBEEFCAFEBABE = [0xBE, 0xBA, 0xFE, 0xCA, 0xEF, 0xBE, 0xAD, 0xDE]"
    by code_simp
  have e4: "string_payload ''x=%d pid=%p'' = map of_char ''x=%d pid=%p''"
    by code_simp
  show ?thesis
    using logFormat_emits_frame_sequence [OF h1 h2 h3 h4 h5, of "\<lparr>tv_sec = 5, tv_nsec = 7\<rparr>"
        "0xDEADBEEFCAFEBABE", THEN conjunct1]
    by (simp only: e2 e3 e4)
qed

declare findLastEntryOfTypes.simps [simp del]
declare back_chain.simps [simp del]

lemma rd_Inr_iff: "rd buf p = Inr b \<longleftrightarrow> 0 \<le> p \<and> p < int (length buf) \<and> b = buf ! nat p"
  by (auto simp: rd_def)

lemma rd_Inl_iff: "rd buf p = Inl x \<longleftrightarrow> \<not> (0 \<le> p \<and> p < int (length buf)) \<and> x = OutOfBounds"
  by (auto simp: rd_def)

lemma findLast_step:
  "findLastEntryOfTypes buf front bk types = Inr r \<Longrightarrow>
   (case consistent_prev buf front bk of
      None \<Rightarrow> r = None
    | Some prev \<Rightarrow>
        if type_in buf types prev then r = Some prev
        else findLastEntryOfTypes buf front prev types = Inr r)"
  apply (subst (asm) findLastEntryOfTypes.simps)
  apply (simp add: consistent_prev_def Let_def kPreviousLengthOffset_def kOverhead_def off_length_def
      off_type_def type_in_def rd_Inr_iff rd_Inl_iff split: if_splits sum.splits)
  done

lemma findLast_is_find:
  "findLastEntryOfTypes buf front bk types = Inr r \<Longrightarrow>
   r = find (type_in buf types) (back_chain buf front bk)"
proof (induction buf front bk arbitrary: r rule: back_chain.induct)
  case (1 buf front bk)
  show ?case
  proof (cases "consistent_prev buf front bk")
    case None
    then show ?thesis
      using findLast_step [OF "1.prems"] by (simp add: back_chain.simps [of buf front bk])
  next
    case (Some prev)
    then show ?thesis
      using findLast_step [OF "1.prems"] "1.IH" [OF Some]
      by (auto simp: back_chain.simps [of buf front bk] split: if_splits)
  qed
qed

lemma findLast_no_error_step:
  assumes "0 \<le> front" and "bk \<le> int (length buf)"
  shows "findLastEntryOfTypes buf front bk types =
     (case consistent_prev buf front bk of
        None \<Rightarrow> Inr None
      | Some prev \<Rightarrow>
          if type_in buf types prev then Inr (Some prev)
          else findLastEntryOfTypes buf front prev types)"
proof -
  have nn: "0 \<le> uint (buf ! nat (bk - 1))" by simp
  have "front \<le> bk - 1 \<Longrightarrow> 0 \<le> bk - 1 \<and> bk - 1 < int (length buf)"
    using assms by linarith
  moreover have "\<not> bk - uint (buf ! nat (bk - 1)) - 3 < front \<Longrightarrow>
                 0 \<le> bk - uint (buf ! nat (bk - 1)) - 3 \<and>
                 bk - uint (buf ! nat (bk - 1)) - 3 + 1 < int (length buf)"
    using assms nn by linarith
  ultimately show ?thesis
    apply (subst findLastEntryOfTypes.simps)
    apply (simp add: consistent_prev_def Let_def kPreviousLengthOffset_def kOverhead_def
        off_length_def off_type_def type_in_def rd_def)
    apply (auto simp: algebra_simps)
    done
qed

lemma consistent_prev_range:
  "consistent_prev buf front bk = Some prev \<Longrightarrow> front \<le> prev \<and> prev + 3 \<le> bk"
proof -
  assume "consistent_prev buf front bk = Some prev"
  then have "front \<le> prev" and "prev = bk - uint (buf ! nat (bk - 1)) - 3"
    by (auto simp: consistent_prev_def Let_def split: if_splits)
  moreover have "0 \<le> uint (buf ! nat (bk - 1))" by simp
  ultimately show ?thesis by linarith
qed

lemma findLast_total:
  "0 \<le> front \<Longrightarrow> bk \<le> int (length buf) \<Longrightarrow>
   findLastEntryOfTypes buf front bk types = Inr (find (type_in buf types) (back_chain buf front bk))"
proof (induction buf front bk rule: back_chain.induct)
  case (1 buf front bk)
  show ?case
  proof (cases "consistent_prev buf front bk")
    case None
    then show ?thesis
      using findLast_no_error_step [OF "1.prems"] by (simp add: back_chain.simps [of buf front bk])
  next
    case (Some prev)
    have "prev \<le> int (length buf)"
      using consistent_prev_range [OF Some] "1.prems" by simp
    then show ?thesis
      using findLast_no_error_step [OF "1.prems", of types] "1.IH" [OF Some "1.prems"(1)] Some
      by (simp add: back_chain.simps [of buf front bk])
  qed
qed

lemma back_chain_elem:
  "p \<in> set (back_chain buf front bk) \<Longrightarrow>
   front \<le> p \<and> 0 \<le> p \<and> p + 1 < int (length buf) \<and> p + uint (buf ! nat (p + 1)) + 3 \<le> bk"
proof (induction buf front bk rule: back_chain.induct)
  case (1 buf front bk)
  show ?case
  proof (cases "consistent_prev buf front bk")
    case None
    then show ?thesis using "1.prems" by (simp add: back_chain.simps [of buf front bk])
  next
    case (Some prev)
    have here: "front \<le> prev \<and> 0 \<le> prev \<and> prev + 1 < int (length buf) \<and>
                prev + uint (buf ! nat (prev + 1)) + 3 = bk"
      using Some by (auto simp: consistent_prev_def Let_def split: if_splits)
    have "p = prev \<or> p \<in> set (back_chain buf front prev)"
      using "1.prems" Some by (simp add: back_chain.simps [of buf front bk])
    then show ?thesis
    proof
      assume "p = prev"
      then show ?thesis using here by simp
    next
      assume "p \<in> set (back_chain buf front prev)"
      from "1.IH" [OF Some this] consistent_prev_range [OF Some] show ?thesis by linarith
    qed
  qed
qed

lemma find_Some_mem: "find P xs = Some x \<Longrightarrow> x \<in> set xs \<and> P x"
  by (induction xs) (auto split: if_splits)

lemma back_chain_filter_split:
  "find P (back_chain buf front bk) = Some p \<Longrightarrow>
   filter P (back_chain buf front bk) = p # filter P (back_chain buf front p)"
proof (induction buf front bk rule: back_chain.induct)
  case (1 buf front bk)
  show ?case
  proof (cases "consistent_prev buf front bk")
    case None
    then show ?thesis using "1.prems" by (simp add: back_chain.simps [of buf front bk])
  next
    case (Some prev)
    then show ?thesis
      using "1.prems" "1.IH" [OF Some]
      by (auto simp: back_chain.simps [of buf front bk] split: if_splits)
  qed
qed

text \<open>
  Claim C3. \<open>findLastEntryOfTypes\<close> gives up at the first violating step: when the
  previous-frame start \<open>prev = back - back[-1] - kOverhead\<close> computed at \<open>back\<close> lies before
  \<open>front\<close>, or \<open>prev + prev[1] + kOverhead \<noteq> back\<close>, the result is null; and a frame it
  returns lies on the chain of consistent backward steps from \<open>back\<close> and has a type of
  the set asked for.
\<close>

theorem findLastEntryOfTypes_stops_at_violation:
  "(front \<le> bk + kPreviousLengthOffset \<and> rd buf (bk + kPreviousLengthOffset) = Inr l \<and>
      (bk - uint l - int kOverhead < front \<or>
       (\<exists>pl. rd buf (bk - uint l - int kOverhead + off_length) = Inr pl \<and>
             bk - uint l - int kOverhead + uint pl + int kOverhead \<noteq> bk))
      \<longrightarrow> findLastEntryOfTypes buf front bk types = Inr None)
   \<and> (findLastEntryOfTypes buf front bk types = Inr (Some p)
      \<longrightarrow> p \<in> set (back_chain buf front bk) \<and> type_in buf types p)"
proof (rule conjI; rule impI)
  assume "front \<le> bk + kPreviousLengthOffset \<and> rd buf (bk + kPreviousLengthOffset) = Inr l \<and>
      (bk - uint l - int kOverhead < front \<or>
       (\<exists>pl. rd buf (bk - uint l - int kOverhead + off_length) = Inr pl \<and>
             bk - uint l - int kOverhead + uint pl + int kOverhead \<noteq> bk))"
  then show "findLastEntryOfTypes buf front bk types = Inr None"
    by (subst findLastEntryOfTypes.simps) (auto simp: Let_def)
next
  assume "findLastEntryOfTypes buf front bk types = Inr (Some p)"
  then have "Some p = find (type_in buf types) (back_chain buf front bk)"
    by (rule findLast_is_find)
  then show "p \<in> set (back_chain buf front bk) \<and> type_in buf types p"
    using find_Some_mem [of "type_in buf types" "back_chain buf front bk" p] by simp
qed

theorem findLastEntryOfTypes_stops_at_violation_witness:
  "findLastEntryOfTypes [7, 0, 0, 9, 0, 0, 1, 1, 65, 1, 5] 0 11 endingTypes = Inr None
   \<and> 3 \<in> set (back_chain [7, 0, 0, 9, 0, 0, 1, 1, 65, 1] 0 10)
   \<and> type_in [7, 0, 0, 9, 0, 0, 1, 1, 65, 1] endingTypes 3"
proof -
  let ?bad = "[7, 0, 0, 9, 0, 0, 1, 1, 65, 1, 5] :: byte list"
  let ?good = "[7, 0, 0, 9, 0, 0, 1, 1, 65, 1] :: byte list"
  have a: "(0::int) \<le> 11 + kPreviousLengthOffset \<and> rd ?bad (11 + kPreviousLengthOffset) = Inr 5 \<and>
      (11 - uint (5 :: byte) - int kOverhead < 0 \<or>
       (\<exists>pl. rd ?bad (11 - uint (5 :: byte) - int kOverhead + off_length) = Inr pl \<and>
             11 - uint (5 :: byte) - int kOverhead + uint pl + int kOverhead \<noteq> 11))"
    by (simp add: kPreviousLengthOffset_def kOverhead_def off_length_def rd_def)
  have b: "findLastEntryOfTypes ?good 0 10 endingTypes = Inr (Some 3)"
    by code_simp
  show ?thesis
    using findLastEntryOfTypes_stops_at_violation [of 0 11 ?bad 5 endingTypes 0, THEN conjunct1, rule_format, OF a]
      findLastEntryOfTypes_stops_at_violation [of 0 10 ?good 0 endingTypes 3, THEN conjunct2, rule_format, OF b]
    by simp
qed

lemma findLast_Some_range:
  "findLastEntryOfTypes buf front bk types = Inr (Some p) \<Longrightarrow> front \<le> p \<and> p < bk"
proof -
  assume "findLastEntryOfTypes buf front bk types = Inr (Some p)"
  then have "Some p = find (type_in buf types) (back_chain buf front bk)"
    by (rule findLast_is_find)
  then have "p \<in> set (back_chain buf front bk)"
    using find_Some_mem [of "type_in buf types" "back_chain buf front bk" p] by simp
  from back_chain_elem [OF this] have "front \<le> p" and "p + uint (buf ! nat (p + 1)) + 3 \<le> bk"
    by simp_all
  moreover have "0 \<le> uint (buf ! nat (p + 1))" by simp
  ultimately show ?thesis by linarith
qed

text \<open>
  The loop of \<open>getSnapshot\<close> that looks for the first starting frame:
  \<open>while ((firstStartTmp = findLastEntryOfTypes(front, firstStartTmp, startingTypes)) != nullptr)
  firstStart = firstStartTmp;\<close>
\<close>

function find_first_start :: "byte list \<Rightarrow> int \<Rightarrow> int \<Rightarrow> int option \<Rightarrow> error + int option" where
  "find_first_start buf front firstStartTmp firstStart =
     (case findLastEntryOfTypes buf front firstStartTmp startingTypes of
        Inl x \<Rightarrow> Inl x
      | Inr None \<Rightarrow> Inr firstStart
      | Inr (Some p) \<Rightarrow> find_first_start buf front p (Some p))"
  by pat_completeness auto
termination
proof (relation "measure (\<lambda>(buf, front, tmp, firstStart). nat (tmp - front))")
  show "wf (measure (\<lambda>(buf :: byte list, front :: int, tmp :: int, firstStart :: int option).
              nat (tmp - front)))"
    by simp
next
  fix buf :: "byte list" and front tmp p :: int and firstStart x :: "int option"
  assume "findLastEntryOfTypes buf front tmp startingTypes = Inr x" and "x = Some p"
  then have "front \<le> p \<and> p < tmp"
    using findLast_Some_range [of buf front tmp startingTypes p] by simp
  then show "((buf, front, p, Some p), (buf, front, tmp, firstStart))
             \<in> measure (\<lambda>(buf, front, tmp, firstStart). nat (tmp - front))"
    by simp
qed

text \<open>\<open>Reader::getSnapshot\<close>; the second component is the count handed to
  \<open>mFifoReader->release\<close>, \<open>None\<close> when \<open>release\<close> is not called.\<close>

definition getSnapshot :: "fifo_obtain option \<Rightarrow> error + (Snapshot \<times> int option)" where
  "getSnapshot mFifoReader =
     (case mFifoReader of
        None \<Rightarrow> Inr (Snapshot_empty, None)
      | Some ob \<Rightarrow>
          if availToRead ob \<le> 0 then Inr (Snapshot_empty, None)
          else
            (let data = iovec0 ob @ iovec1 ob;
                 bk = availToRead ob;
                 front = 0
             in case findLastEntryOfTypes data front bk endingTypes of
                  Inl x \<Rightarrow> Inl x
                | Inr None \<Rightarrow>
                    Inr (\<lparr>snap_mData = data, mBegin = front, mEnd = front, mLost = lost ob\<rparr>,
                         Some (front - front))
                | Inr (Some lastEnd) \<Rightarrow>
                    (case it_inc data lastEnd of
                       Inl x \<Rightarrow> Inl x
                     | Inr e \<Rightarrow>
                         (case find_first_start data front e None of
                            Inl x \<Rightarrow> Inl x
                          | Inr firstStart \<Rightarrow>
                              Inr (\<lparr>snap_mData = data,
                                    mBegin = (case firstStart of None \<Rightarrow> e | Some f \<Rightarrow> f),
                                    mEnd = e, mLost = lost ob\<rparr>,
                                   Some (e - front))))))"

declare find_first_start.simps [simp del]

lemma find_first_start_eq:
  "0 \<le> front \<Longrightarrow> tmp \<le> int (length buf) \<Longrightarrow>
   find_first_start buf front tmp acc =
     Inr (case filter (type_in buf startingTypes) (back_chain buf front tmp) of
            [] \<Rightarrow> acc
          | xs \<Rightarrow> Some (last xs))"
proof (induction buf front tmp acc rule: find_first_start.induct)
  case (1 buf front tmp acc)
  let ?P = "type_in buf startingTypes"
  have fl: "findLastEntryOfTypes buf front tmp startingTypes = Inr (find ?P (back_chain buf front tmp))"
    by (rule findLast_total [OF "1.prems"])
  show ?case
  proof (cases "find ?P (back_chain buf front tmp)")
    case None
    then have "filter ?P (back_chain buf front tmp) = []"
      by (simp add: find_None_iff filter_empty_conv)
    then show ?thesis
      using fl None by (simp add: find_first_start.simps [of buf front tmp])
  next
    case (Some p)
    have rng: "front \<le> p \<and> p < tmp"
      using findLast_Some_range [of buf front tmp startingTypes p] fl Some by simp
    have split: "filter ?P (back_chain buf front tmp) = p # filter ?P (back_chain buf front p)"
      by (rule back_chain_filter_split [OF Some])
    have "find_first_start buf front p (Some p) =
          Inr (case filter ?P (back_chain buf front p) of [] \<Rightarrow> Some p | xs \<Rightarrow> Some (last xs))"
      using "1.IH" [of "find ?P (back_chain buf front tmp)" p] fl Some rng "1.prems" by simp
    then show ?thesis
      using fl Some split
      by (simp add: find_first_start.simps [of buf front tmp] split: list.splits)
  qed
qed

lemma getSnapshot_no_data:
  "getSnapshot None = Inr (Snapshot_empty, None)"
  "availToRead ob \<le> 0 \<Longrightarrow> getSnapshot (Some ob) = Inr (Snapshot_empty, None)"
  by (simp_all add: getSnapshot_def)

text \<open>
  Claim C2. \<open>getSnapshot\<close> on \<open>availToRead > 0\<close> copied bytes \<open>data\<close>: when the backward scan
  from the end of \<open>data\<close> finds no frame of an ending type, \<open>mBegin = mEnd = front\<close> (offset
  0); otherwise \<open>mEnd\<close> is just past the nearest such frame \<open>lastEnd\<close>, and \<open>mBegin\<close> is the
  earliest frame of a starting type on the chain of consistent backward steps from
  \<open>mEnd\<close>, or \<open>mEnd\<close> when the chain holds none. \<open>release\<close> is called with \<open>mEnd - front\<close>.
\<close>

theorem getSnapshot_trims_tail_and_head:
  assumes "0 < availToRead ob" and "int (length (iovec0 ob @ iovec1 ob)) = availToRead ob"
  shows "\<exists>snap. getSnapshot (Some ob) = Inr (snap, Some (mEnd snap)) \<and>
           snap_mData snap = iovec0 ob @ iovec1 ob \<and> mLost snap = lost ob \<and>
           (case find (type_in (iovec0 ob @ iovec1 ob) endingTypes)
                   (back_chain (iovec0 ob @ iovec1 ob) 0 (availToRead ob)) of
              None \<Rightarrow> mBegin snap = 0 \<and> mEnd snap = 0
            | Some lastEnd \<Rightarrow>
                mEnd snap = lastEnd + (uint ((iovec0 ob @ iovec1 ob) ! nat (lastEnd + 1)) + 3) \<and>
                mBegin snap =
                  (case filter (type_in (iovec0 ob @ iovec1 ob) startingTypes)
                          (back_chain (iovec0 ob @ iovec1 ob) 0 (mEnd snap)) of
                     [] \<Rightarrow> mEnd snap
                   | xs \<Rightarrow> last xs))"
proof -
  let ?data = "iovec0 ob @ iovec1 ob"
  let ?bk = "availToRead ob"
  have len: "?bk \<le> int (length ?data)" using assms(2) by simp
  have fl: "findLastEntryOfTypes ?data 0 ?bk endingTypes =
            Inr (find (type_in ?data endingTypes) (back_chain ?data 0 ?bk))"
    by (rule findLast_total [OF _ len]) simp
  show ?thesis
  proof (cases "find (type_in ?data endingTypes) (back_chain ?data 0 ?bk)")
    case None
    then show ?thesis
      using assms(1) fl by (simp add: getSnapshot_def Let_def)
  next
    case (Some lastEnd)
    let ?e = "lastEnd + (uint (?data ! nat (lastEnd + 1)) + 3)"
    have mem: "lastEnd \<in> set (back_chain ?data 0 ?bk)"
      using find_Some_mem [OF Some] by simp
    have rng: "0 \<le> lastEnd" "lastEnd + 1 < int (length ?data)" "?e \<le> ?bk"
      using back_chain_elem [OF mem] by simp_all
    have inc: "it_inc ?data lastEnd = Inr ?e"
      using rng by (simp add: it_inc_def rd_def off_length_def kOverhead_def)
    have loop: "find_first_start ?data 0 ?e None =
                Inr (case filter (type_in ?data startingTypes) (back_chain ?data 0 ?e) of
                       [] \<Rightarrow> None | xs \<Rightarrow> Some (last xs))"
      by (rule find_first_start_eq) (use rng len in simp_all)
    show ?thesis
      using assms(1) fl Some inc loop
      by (simp add: getSnapshot_def Let_def split: list.splits)
  qed
qed

theorem getSnapshot_trims_tail_and_head_witness:
  "getSnapshot (Some \<lparr>availToRead = 11, iovec0 = [65, 1, 7, 0, 0, 9], iovec1 = [0, 0, 10, 0, 0], lost = 4\<rparr>)
   = Inr (\<lparr>snap_mData = [65, 1, 7, 0, 0, 9, 0, 0, 10, 0, 0], mBegin = 2, mEnd = 11, mLost = 4\<rparr>, Some 11)"
proof -
  let ?ob = "\<lparr>availToRead = 11, iovec0 = [65, 1, 7, 0, 0, 9], iovec1 = [0, 0, 10, 0, 0], lost = 4\<rparr>"
  have h1: "0 < availToRead ?ob" by simp
  have h2: "int (length (iovec0 ?ob @ iovec1 ?ob)) = availToRead ?ob" by simp
  have c1: "find (type_in (iovec0 ?ob @ iovec1 ?ob) endingTypes)
              (back_chain (iovec0 ?ob @ iovec1 ?ob) 0 (availToRead ?ob)) = Some 8"
    by code_simp
  have c2: "filter (type_in (iovec0 ?ob @ iovec1 ?ob) startingTypes)
              (back_chain (iovec0 ?ob @ iovec1 ?ob) 0 11) = [8, 2]"
    by code_simp
  obtain snap where s: "getSnapshot (Some ?ob) = Inr (snap, Some (mEnd snap))"
      "snap_mData snap = iovec0 ?ob @ iovec1 ?ob" "mLost snap = lost ?ob"
      "(case find (type_in (iovec0 ?ob @ iovec1 ?ob) endingTypes)
                   (back_chain (iovec0 ?ob @ iovec1 ?ob) 0 (availToRead ?ob)) of
              None \<Rightarrow> mBegin snap = 0 \<and> mEnd snap = 0
            | Some lastEnd \<Rightarrow>
                mEnd snap = lastEnd + (uint ((iovec0 ?ob @ iovec1 ?ob) ! nat (lastEnd + 1)) + 3) \<and>
                mBegin snap =
                  (case filter (type_in (iovec0 ?ob @ iovec1 ?ob) startingTypes)
                          (back_chain (iovec0 ?ob @ iovec1 ?ob) 0 (mEnd snap)) of
                     [] \<Rightarrow> mEnd snap
                   | xs \<Rightarrow> last xs))"
    using getSnapshot_trims_tail_and_head [OF h1 h2] by blast
  have e: "mEnd snap = 11" using s(4) unfolding c1 by simp
  have b: "mBegin snap = 2" using s(4) unfolding c1 e c2 by simp
  have "snap = \<lparr>snap_mData = [65, 1, 7, 0, 0, 9, 0, 0, 10, 0, 0], mBegin = 2, mEnd = 11, mLost = 4\<rparr>"
    using s(2,3) e b by (cases snap) simp
  then show ?thesis using s(1) by simp
qed

lemma it_inc_gt: "it_inc buf it = Inr it' \<Longrightarrow> it < it' \<and> it + 1 < int (length buf)"
proof -
  assume a: "it_inc buf it = Inr it'"
  then obtain l where l: "rd buf (it + off_length) = Inr l" "it' = it + (uint l + int kOverhead)"
    by (auto simp: it_inc_def split: sum.splits)
  have "0 \<le> uint l" by simp
  moreover have "int kOverhead = 3" by (simp add: kOverhead_def)
  moreover have "it + 1 < int (length buf)" using l(1) by (simp add: rd_Inr_iff off_length_def)
  ultimately show ?thesis using l(2) by linarith
qed

lemma it_dec_lt: "it_dec buf it = Inr it' \<Longrightarrow> it' < it \<and> 1 \<le> it"
proof -
  assume a: "it_dec buf it = Inr it'"
  then obtain l where l: "rd buf (it + kPreviousLengthOffset) = Inr l" "it' = it - (uint l + int kOverhead)"
    by (auto simp: it_dec_def split: sum.splits)
  have "0 \<le> uint l" by simp
  moreover have "int kOverhead = 3" by (simp add: kOverhead_def)
  moreover have "1 \<le> it" using l(1) by (simp add: rd_Inr_iff kPreviousLengthOffset_def)
  ultimately show ?thesis using l(2) by linarith
qed

text \<open>
  Forward iteration \<open>for (it = begin; it != end; ++it)\<close> and backward iteration
  \<open>for (it = end; it != begin; --it)\<close>, each giving the iterator values it takes, the last
  one included.
\<close>

function fwd_iter :: "byte list \<Rightarrow> int \<Rightarrow> int \<Rightarrow> error + int list" where
  "fwd_iter buf it e =
     (if it = e then Inr [it]
      else
        (case it_inc buf it of
           Inl x \<Rightarrow> Inl x
         | Inr it' \<Rightarrow>
             (case fwd_iter buf it' e of
                Inl x \<Rightarrow> Inl x
              | Inr ps \<Rightarrow> Inr (it # ps))))"
  by pat_completeness auto
termination
proof (relation "measure (\<lambda>(buf, it, e). nat (int (length buf) - it))")
  show "wf (measure (\<lambda>(buf :: byte list, it :: int, e :: int). nat (int (length buf) - it)))"
    by simp
next
  fix buf :: "byte list" and it e it' :: int
  assume "it_inc buf it = Inr it'"
  from it_inc_gt [OF this]
  show "((buf, it', e), (buf, it, e)) \<in> measure (\<lambda>(buf, it, e). nat (int (length buf) - it))"
    by simp
qed

function bwd_iter :: "byte list \<Rightarrow> int \<Rightarrow> int \<Rightarrow> error + int list" where
  "bwd_iter buf it b =
     (if it = b then Inr [it]
      else
        (case it_dec buf it of
           Inl x \<Rightarrow> Inl x
         | Inr it' \<Rightarrow>
             (case bwd_iter buf it' b of
                Inl x \<Rightarrow> Inl x
              | Inr ps \<Rightarrow> Inr (it # ps))))"
  by pat_completeness auto
termination
proof (relation "measure (\<lambda>(buf, it, b). nat it)")
  show "wf (measure (\<lambda>(buf :: byte list, it :: int, b :: int). nat it))"
    by simp
next
  fix buf :: "byte list" and it b it' :: int
  assume "it_dec buf it = Inr it'"
  from it_dec_lt [OF this]
  show "((buf, it', b), (buf, it, b)) \<in> measure (\<lambda>(buf, it, b). nat it)"
    by simp
qed

declare fwd_iter.simps [simp del]
declare bwd_iter.simps [simp del]

text \<open>The frame boundaries of a sequence of frames laid out from offset \<open>p\<close>: the start
  of each frame and the end of the last.\<close>

fun frame_starts :: "int \<Rightarrow> frame list \<Rightarrow> int list" where
  "frame_starts p [] = [p]"
| "frame_starts p ((ev, pl) # fs) = p # frame_starts (p + int (length pl) + 3) fs"

lemma length_frame_bytes [simp]: "length (frame_bytes ev pl) = length pl + 3"
  by (simp add: frame_bytes_def)

lemma of_nat_len_byte:
  "n \<le> kMaxLength \<Longrightarrow> uint (of_nat n :: byte) = int n"
  by (simp add: kMaxLength_def uint_nat unat_of_nat)

lemma it_inc_frame:
  assumes "length pl \<le> kMaxLength"
  shows "it_inc (pre @ frame_bytes ev pl @ post) (int (length pre)) =
         Inr (int (length pre) + int (length pl) + 3)"
proof -
  have "rd (pre @ frame_bytes ev pl @ post) (int (length pre) + off_length) = Inr (of_nat (length pl))"
    by (simp add: rd_def off_length_def frame_bytes_def nth_append nat_add_distrib)
  then show ?thesis
    using of_nat_len_byte [OF assms] by (simp add: it_inc_def kOverhead_def)
qed

lemma it_dec_frame:
  assumes "length pl \<le> kMaxLength"
  shows "it_dec (pre @ frame_bytes ev pl @ post) (int (length pre) + int (length pl) + 3) =
         Inr (int (length pre))"
proof -
  have "rd (pre @ frame_bytes ev pl @ post) (int (length pre) + int (length pl) + 3 + kPreviousLengthOffset)
        = Inr (of_nat (length pl))"
    by (simp add: rd_def kPreviousLengthOffset_def frame_bytes_def nth_append nat_add_distrib)
  then show ?thesis
    using of_nat_len_byte [OF assms] by (simp add: it_dec_def kOverhead_def)
qed

lemma frame_starts_snoc:
  "frame_starts p (fs @ [(ev, pl)]) =
   frame_starts p fs @ [p + int (length (frames_bytes fs)) + int (length pl) + 3]"
  by (induction p fs rule: frame_starts.induct) (simp_all add: algebra_simps)

lemma frame_starts_nth:
  "k \<le> length fs \<Longrightarrow> frame_starts p fs ! k = p + int (length (frames_bytes (take k fs)))"
proof (induction p fs arbitrary: k rule: frame_starts.induct)
  case (1 p)
  then show ?case by simp
next
  case (2 p ev pl fs)
  then show ?case by (cases k) (simp_all add: algebra_simps)
qed

lemma fwd_iter_frames:
  "\<forall>(ev, pl) \<in> set fs. length pl \<le> kMaxLength \<Longrightarrow>
   fwd_iter (pre @ frames_bytes fs @ post) (int (length pre))
     (int (length pre) + int (length (frames_bytes fs))) = Inr (frame_starts (int (length pre)) fs)"
proof (induction fs arbitrary: pre)
  case Nil
  then show ?case by (simp add: fwd_iter.simps)
next
  case (Cons f fs)
  obtain ev pl where f: "f = (ev, pl)" by (cases f)
  have pl: "length pl \<le> kMaxLength" using Cons.prems f by simp
  have rest: "\<forall>(ev, pl) \<in> set fs. length pl \<le> kMaxLength" using Cons.prems by simp
  have ih: "fwd_iter ((pre @ frame_bytes ev pl) @ frames_bytes fs @ post)
              (int (length (pre @ frame_bytes ev pl)))
              (int (length (pre @ frame_bytes ev pl)) + int (length (frames_bytes fs)))
            = Inr (frame_starts (int (length (pre @ frame_bytes ev pl))) fs)"
    by (rule Cons.IH [OF rest])
  have inc: "it_inc (pre @ frame_bytes ev pl @ frames_bytes fs @ post) (int (length pre))
             = Inr (int (length pre) + int (length pl) + 3)"
    by (rule it_inc_frame [OF pl])
  show ?case
    using ih inc
    by (subst fwd_iter.simps) (simp add: f algebra_simps)
qed

lemma bwd_iter_frames:
  "\<forall>(ev, pl) \<in> set fs. length pl \<le> kMaxLength \<Longrightarrow>
   bwd_iter (pre @ frames_bytes fs @ post) (int (length pre) + int (length (frames_bytes fs)))
     (int (length pre)) = Inr (rev (frame_starts (int (length pre)) fs))"
proof (induction fs arbitrary: post rule: rev_induct)
  case Nil
  then show ?case by (simp add: bwd_iter.simps)
next
  case (snoc f fs)
  obtain ev pl where f: "f = (ev, pl)" by (cases f)
  have pl: "length pl \<le> kMaxLength" using snoc.prems f by simp
  have rest: "\<forall>(ev, pl) \<in> set fs. length pl \<le> kMaxLength" using snoc.prems by simp
  have ih: "bwd_iter (pre @ frames_bytes fs @ (frame_bytes ev pl @ post))
              (int (length pre) + int (length (frames_bytes fs))) (int (length pre))
            = Inr (rev (frame_starts (int (length pre)) fs))"
    by (rule snoc.IH [OF rest])
  have dec: "it_dec ((pre @ frames_bytes fs) @ frame_bytes ev pl @ post)
               (int (length (pre @ frames_bytes fs)) + int (length pl) + 3)
             = Inr (int (length (pre @ frames_bytes fs)))"
    by (rule it_dec_frame [OF pl])
  show ?case
    using ih dec
    by (subst bwd_iter.simps) (simp add: f frame_starts_snoc algebra_simps)
qed

lemma inc_dec_at_frame:
  assumes "\<forall>(ev, pl) \<in> set fs. length pl \<le> kMaxLength" and "k < length fs"
  shows "it_inc (pre @ frames_bytes fs @ post) (frame_starts (int (length pre)) fs ! k)
           = Inr (frame_starts (int (length pre)) fs ! Suc k)
         \<and> it_dec (pre @ frames_bytes fs @ post) (frame_starts (int (length pre)) fs ! Suc k)
           = Inr (frame_starts (int (length pre)) fs ! k)"
proof -
  obtain ev pl where f: "fs ! k = (ev, pl)" by (cases "fs ! k")
  have pl: "length pl \<le> kMaxLength"
    using assms f nth_mem [OF assms(2)] by auto
  let ?pre = "pre @ frames_bytes (take k fs)"
  let ?post = "frames_bytes (drop (Suc k) fs) @ post"
  have fs: "fs = take k fs @ (ev, pl) # drop (Suc k) fs"
    using id_take_nth_drop [OF assms(2)] f by simp
  have buf: "pre @ frames_bytes fs @ post = ?pre @ frame_bytes ev pl @ ?post"
    by (subst fs) simp
  have sk: "frame_starts (int (length pre)) fs ! k = int (length ?pre)"
    using assms(2) by (simp add: frame_starts_nth)
  have sk1: "frame_starts (int (length pre)) fs ! Suc k = int (length ?pre) + int (length pl) + 3"
    using assms(2) f by (simp add: frame_starts_nth take_Suc_conv_app_nth)
  show ?thesis
    unfolding buf sk sk1
    using it_inc_frame [OF pl, of ?pre ev ?post] it_dec_frame [OF pl, of ?pre ev ?post]
    by simp
qed

text \<open>
  Claim C7. In a region holding frames emitted by a writer (each payload at most
  \<open>kMaxLength\<close> bytes), at every frame boundary \<open>p\<close> that starts a frame, \<open>++it\<close> moves to the
  next boundary and \<open>--it\<close> from there moves back to \<open>p\<close>; forward iteration from the begin
  of the frames to their end visits the frame boundaries, and backward iteration from the
  end to the begin visits the same boundaries in reverse order.
\<close>

theorem iterator_forward_backward_boundaries:
  assumes "\<forall>(ev, pl) \<in> set fs. length pl \<le> kMaxLength"
  shows "(\<forall>k < length fs.
            it_inc (pre @ frames_bytes fs @ post) (frame_starts (int (length pre)) fs ! k)
              = Inr (frame_starts (int (length pre)) fs ! Suc k) \<and>
            it_dec (pre @ frames_bytes fs @ post) (frame_starts (int (length pre)) fs ! Suc k)
              = Inr (frame_starts (int (length pre)) fs ! k))
         \<and> fwd_iter (pre @ frames_bytes fs @ post) (int (length pre))
              (int (length pre) + int (length (frames_bytes fs)))
            = Inr (frame_starts (int (length pre)) fs)
         \<and> bwd_iter (pre @ frames_bytes fs @ post)
              (int (length pre) + int (length (frames_bytes fs))) (int (length pre))
            = Inr (rev (frame_starts (int (length pre)) fs))"
  using inc_dec_at_frame [OF assms] fwd_iter_frames [OF assms] bwd_iter_frames [OF assms]
  by blast

theorem iterator_forward_backward_boundaries_witness:
  "fwd_iter (frames_bytes [(EVENT_START_FMT, [120]), (EVENT_INTEGER, [7, 0, 0, 0]), (EVENT_END_FMT, [])])
     0 14 = Inr [0, 4, 11, 14]
   \<and> bwd_iter (frames_bytes [(EVENT_START_FMT, [120]), (EVENT_INTEGER, [7, 0, 0, 0]), (EVENT_END_FMT, [])])
     14 0 = Inr [14, 11, 4, 0]"
proof -
  let ?fs = "[(EVENT_START_FMT, [120]), (EVENT_INTEGER, [7, 0, 0, 0]), (EVENT_END_FMT, [])] :: frame list"
  have h: "\<forall>(ev, pl) \<in> set ?fs. length pl \<le> kMaxLength" by (simp add: kMaxLength_def)
  have s: "frame_starts (int (length ([] :: byte list))) ?fs = [0, 4, 11, 14]" by simp
  have l: "int (length ([] :: byte list)) + int (length (frames_bytes ?fs)) = 14" by simp
  show ?thesis
    using iterator_forward_backward_boundaries [OF h, of "[]" "[]"]
    unfolding s l by simp
qed

text \<open>
  Claim C8, as the code has it. \<open>Writer::log(Event, const void *, size_t)\<close> and the
  untrusted path of \<open>Writer::log(const Entry *, bool)\<close> drop a frame whose event tag is
  \<open>RESERVED\<close> or at least \<open>UPPER_BOUND\<close>, whose payload pointer is null or whose length
  exceeds \<open>kMaxLength\<close>: the call returns and the writer, its FIFO included, is unchanged.
  \<open>Writer::log(const char *)\<close> with a null pointer is a no-op only on a disabled writer; on
  an enabled writer \<open>LOG_ALWAYS_FATAL_IF\<close> aborts.
\<close>

theorem log_drops_invalid_frames:
  "(ev = EVENT_RESERVED \<or> EVENT_UPPER_BOUND \<le> ev \<or> data = None \<or> kMaxLength < len
      \<longrightarrow> log_event w ev data len = Inr w)
   \<and> (mEvent e = EVENT_RESERVED \<or> EVENT_UPPER_BOUND \<le> mEvent e \<or> mData e = None
      \<longrightarrow> log_entry w e False = Inr w)
   \<and> (\<not> mEnabled w \<longrightarrow> log_string w None = Inr w)
   \<and> (mEnabled w \<longrightarrow> log_string w None = Inl Fatal)"
  by (auto simp: log_event_def log_entry_def log_string_def)

theorem log_drops_invalid_frames_witness:
  "log_event (Writer_new True 7 ''a'') EVENT_UPPER_BOUND (Some [1]) 1 = Inr (Writer_new True 7 ''a'')
   \<and> log_event (Writer_new True 7 ''a'') EVENT_STRING None 0 = Inr (Writer_new True 7 ''a'')
   \<and> log_event (Writer_new True 7 ''a'') EVENT_STRING (Some (replicate 300 0)) 256
       = Inr (Writer_new True 7 ''a'')
   \<and> log_entry (Writer_new True 7 ''a'') \<lparr>mEvent = EVENT_RESERVED, mLength = 1, mData = Some [1]\<rparr> False
       = Inr (Writer_new True 7 ''a'')
   \<and> log_string Writer_default None = Inr Writer_default
   \<and> log_string (Writer_new True 7 ''a'') None = Inl Fatal"
proof -
  let ?w = "Writer_new True 7 ''a''"
  have en: "mEnabled ?w" by (simp add: Writer_new_def Let_def)
  have dis: "\<not> mEnabled Writer_default" by (simp add: Writer_default_def)
  have k: "kMaxLength < 256" by (simp add: kMaxLength_def)
  show ?thesis
    using log_drops_invalid_frames [of EVENT_UPPER_BOUND "Some [1]" 1 ?w, THEN conjunct1]
      log_drops_invalid_frames [of EVENT_STRING None 0 ?w, THEN conjunct1]
      log_drops_invalid_frames [of EVENT_STRING "Some (replicate 300 0)" 256 ?w, THEN conjunct1]
      log_drops_invalid_frames [where e = "\<lparr>mEvent = EVENT_RESERVED, mLength = 1, mData = Some [1]\<rparr>" and w = ?w,
        THEN conjunct2, THEN conjunct1]
      log_drops_invalid_frames [where w = Writer_default, THEN conjunct2, THEN conjunct2, THEN conjunct1]
      log_drops_invalid_frames [where w = ?w, THEN conjunct2, THEN conjunct2, THEN conjunct2]
      en dis k
    by simp
qed

theorem log_null_string_counterexample:
  "mEnabled (Writer_new True 7 ''a'')
   \<and> log_string (Writer_new True 7 ''a'') None = Inl Fatal
   \<and> log_string (Writer_new True 7 ''a'') None \<noteq> Inr (Writer_new True 7 ''a'')"
  by (simp add: log_string_def Writer_new_def Let_def)

text \<open>The loop \<open>while ((++it)->type != EVENT_END_FMT) it.copyTo(dst);\<close> of
  \<open>FormatEntry::copyWithAuthor\<close>: the iterator on the end entry and the bytes written.\<close>

function copy_rest :: "byte list \<Rightarrow> int \<Rightarrow> byte list \<Rightarrow> error + (int \<times> byte list)" where
  "copy_rest buf it dst =
     (case it_inc buf it of
        Inl x \<Rightarrow> Inl x
      | Inr it' \<Rightarrow>
          (case it_type buf it' of
             Inl x \<Rightarrow> Inl x
           | Inr ty \<Rightarrow>
               if ty \<noteq> EVENT_END_FMT then
                 (case copyTo buf it' dst of
                    Inl x \<Rightarrow> Inl x
                  | Inr dst' \<Rightarrow> copy_rest buf it' dst')
               else Inr (it', dst)))"
  by pat_completeness auto
termination
proof (relation "measure (\<lambda>(buf, it, dst). nat (int (length buf) - it))")
  show "wf (measure (\<lambda>(buf :: byte list, it :: int, dst :: byte list). nat (int (length buf) - it)))"
    by simp
next
  fix buf dst dst' :: "byte list" and it it' :: int
  assume "it_inc buf it = Inr it'"
  from it_inc_gt [OF this]
  show "((buf, it', dst'), (buf, it, dst)) \<in> measure (\<lambda>(buf, it, dst). nat (int (length buf) - it))"
    by simp
qed

declare copy_rest.simps [simp del]

text \<open>\<open>FormatEntry::copyWithAuthor\<close>: the iterator past the end entry and the bytes
  written to \<open>dst\<close>.\<close>

definition FormatEntry_copyWithAuthor ::
  "byte list \<Rightarrow> int \<Rightarrow> byte list \<Rightarrow> 32 word \<Rightarrow> error + (int \<times> byte list)" where
  "FormatEntry_copyWithAuthor buf mEntry dst author =
     (case copyTo buf mEntry dst of
        Inl x \<Rightarrow> Inl x
      | Inr dst1 \<Rightarrow>
     (case it_inc buf mEntry of
        Inl x \<Rightarrow> Inl x
      | Inr it1 \<Rightarrow>
     (case copyTo buf it1 dst1 of
        Inl x \<Rightarrow> Inl x
      | Inr dst2 \<Rightarrow>
     (case it_inc buf it1 of
        Inl x \<Rightarrow> Inl x
      | Inr it2 \<Rightarrow>
     (case copyTo buf it2 dst2 of
        Inl x \<Rightarrow> Inl x
      | Inr dst3 \<Rightarrow>
     (case copy_rest buf it2 (dst3 @ authorEntry author) of
        Inl x \<Rightarrow> Inl x
      | Inr (it3, dst4) \<Rightarrow>
     (case copyTo buf it3 dst4 of
        Inl x \<Rightarrow> Inl x
      | Inr dst5 \<Rightarrow>
     (case it_inc buf it3 of
        Inl x \<Rightarrow> Inl x
      | Inr it4 \<Rightarrow> Inr (it4, dst5)))))))))"

text \<open>
  \<open>HistogramEntry::copyWithAuthor\<close>. \<open>stack\<close> is what the uninitialised \<open>buffer\<close> holds on
  entry, \<open>kOverhead + sizeof(HistTsEntryWithAuthor)\<close> bytes; \<open>sizeof(entry)\<close> is 2. The
  first \<open>sizeof(entry) + sizeof(HistTsEntry)\<close> bytes come from the source, then the author,
  then the two length bytes are set; the bytes between the author and the trailing length
  (the padding of the struct) keep what the stack held.
\<close>

definition HistogramEntry_copyWithAuthor ::
  "abi \<Rightarrow> byte list \<Rightarrow> byte list \<Rightarrow> int \<Rightarrow> byte list \<Rightarrow> 32 word \<Rightarrow> error + (int \<times> byte list)" where
  "HistogramEntry_copyWithAuthor a stack buf mEntry dst author =
     (let size = kOverhead + sizeof_HistTsEntryWithAuthor a;
          n = 2 + sizeof_HistTsEntry a
      in case rd_range buf mEntry n of
           Inl x \<Rightarrow> Inl x
         | Inr src \<Rightarrow>
             (let buffer = src @ drop n stack;
                  buffer = take n buffer @ enc_int author @ drop (n + sizeof_int) buffer;
                  buffer = buffer[1 := of_nat (sizeof_HistTsEntryWithAuthor a)];
                  buffer = buffer[size - 1 := of_nat (sizeof_HistTsEntryWithAuthor a)]
              in case it_inc buf mEntry of
                   Inl x \<Rightarrow> Inl x
                 | Inr nxt \<Rightarrow> Inr (nxt, dst @ take size buffer)))"

lemma le_int_le_bytes: "le_int (le_bytes n v) = v mod 256 ^ n"
proof (induction n arbitrary: v)
  case 0
  then show ?case by simp
next
  case (Suc n)
  have "uint (word_of_int v :: byte) = v mod 256"
    by (simp add: uint_word_of_int)
  moreover have "v mod (256 * 256 ^ n) = 256 * (v div 256 mod 256 ^ n) + v mod 256"
    by (rule zmod_zmult2_eq) simp
  ultimately show ?case using Suc.IH [of "v div 256"] by simp
qed

lemma dec_int_enc_int [simp]: "dec_int (enc_int x) = x"
proof -
  have "le_int (le_bytes 4 (uint x)) = uint x mod 256 ^ 4"
    by (rule le_int_le_bytes)
  moreover have "uint x mod 256 ^ 4 = uint x"
    using uint_lt2p [of x] by simp
  ultimately show ?thesis
    by (simp add: dec_int_def enc_int_def sizeof_int_def)
qed

lemma dec_int_enc_int_append [simp]: "dec_int (enc_int x @ bs) = x"
  using dec_int_enc_int [of x] by (simp add: dec_int_def enc_int_def sizeof_int_def)

lemma dec_hash_enc_hash [simp]: "dec_hash (enc_hash x) = x"
proof -
  have "le_int (le_bytes 8 (uint x)) = uint x mod 256 ^ 8"
    by (rule le_int_le_bytes)
  moreover have "uint x mod 256 ^ 8 = uint x"
    using uint_lt2p [of x] by simp
  ultimately show ?thesis
    by (simp add: dec_hash_def enc_hash_def sizeof_hash_def)
qed

lemma length_enc_int [simp]: "length (enc_int x) = 4"
  by (simp add: enc_int_def sizeof_int_def)

lemma length_enc_hash [simp]: "length (enc_hash x) = 8"
  by (simp add: enc_hash_def sizeof_hash_def)

lemma authorEntry_frame: "authorEntry author = frame_bytes EVENT_AUTHOR (enc_int author)"
  by (simp add: authorEntry_def frame_bytes_def sizeof_int_def)

lemma rd_range_mid:
  "rd_range (pre @ bs @ post) (int (length pre)) (length bs) = Inr bs"
  by (simp add: rd_range_def)

lemma copyTo_frame:
  assumes "length pl \<le> kMaxLength"
  shows "copyTo (pre @ frame_bytes ev pl @ post) (int (length pre)) dst = Inr (dst @ frame_bytes ev pl)"
proof -
  have r: "rd (pre @ frame_bytes ev pl @ post) (int (length pre) + off_length) = Inr (of_nat (length pl))"
    by (simp add: rd_def off_length_def frame_bytes_def nth_append nat_add_distrib)
  have u: "unat (of_nat (length pl) :: byte) = length pl"
    using assms by (simp add: kMaxLength_def unat_of_nat)
  have "rd_range (pre @ frame_bytes ev pl @ post) (int (length pre)) (length (frame_bytes ev pl))
        = Inr (frame_bytes ev pl)"
    by (rule rd_range_mid)
  then show ?thesis
    by (simp add: copyTo_def r u kOverhead_def)
qed

lemma it_type_frame:
  "it_type (pre @ frame_bytes ev pl @ post) (int (length pre)) = Inr ev"
  by (simp add: it_type_def rd_def off_type_def frame_bytes_def nth_append)

lemma it_length_frame:
  "it_length (pre @ frame_bytes ev pl @ post) (int (length pre)) = Inr (of_nat (length pl))"
  by (simp add: it_length_def rd_def off_length_def frame_bytes_def nth_append nat_add_distrib)

lemma copy_rest_frames:
  "length pl0 \<le> kMaxLength \<Longrightarrow> \<forall>(ev, pl) \<in> set args. length pl \<le> kMaxLength \<and> ev \<noteq> EVENT_END_FMT \<Longrightarrow>
   copy_rest (pre @ frame_bytes ev0 pl0 @ frames_bytes args @ frame_bytes EVENT_END_FMT e @ post)
     (int (length pre)) dst
   = Inr (int (length pre) + int (length (frame_bytes ev0 pl0)) + int (length (frames_bytes args)),
          dst @ frames_bytes args)"
proof (induction args arbitrary: pre ev0 pl0 dst)
  case Nil
  have inc: "it_inc (pre @ frame_bytes ev0 pl0 @ frame_bytes EVENT_END_FMT e @ post) (int (length pre))
             = Inr (int (length pre) + int (length pl0) + 3)"
    by (rule it_inc_frame [OF Nil.prems(1)])
  have ty: "it_type ((pre @ frame_bytes ev0 pl0) @ frame_bytes EVENT_END_FMT e @ post)
              (int (length (pre @ frame_bytes ev0 pl0))) = Inr EVENT_END_FMT"
    by (rule it_type_frame)
  show ?case
    using inc ty by (subst copy_rest.simps) (simp add: algebra_simps)
next
  case (Cons f args)
  obtain ev pl where f: "f = (ev, pl)" by (cases f)
  have pl: "length pl \<le> kMaxLength" and ev: "ev \<noteq> EVENT_END_FMT"
    using Cons.prems(2) f by simp_all
  have rest: "\<forall>(ev, pl) \<in> set args. length pl \<le> kMaxLength \<and> ev \<noteq> EVENT_END_FMT"
    using Cons.prems(2) by simp
  let ?tail = "frames_bytes args @ frame_bytes EVENT_END_FMT e @ post"
  let ?pre' = "pre @ frame_bytes ev0 pl0"
  have inc: "it_inc (pre @ frame_bytes ev0 pl0 @ frame_bytes ev pl @ ?tail) (int (length pre))
             = Inr (int (length pre) + int (length pl0) + 3)"
    by (rule it_inc_frame [OF Cons.prems(1)])
  have ty: "it_type (?pre' @ frame_bytes ev pl @ ?tail) (int (length ?pre')) = Inr ev"
    by (rule it_type_frame)
  have cp: "copyTo (?pre' @ frame_bytes ev pl @ ?tail) (int (length ?pre')) dst
            = Inr (dst @ frame_bytes ev pl)"
    by (rule copyTo_frame [OF pl])
  have ih: "copy_rest (?pre' @ frame_bytes ev pl @ ?tail) (int (length ?pre')) (dst @ frame_bytes ev pl)
            = Inr (int (length ?pre') + int (length (frame_bytes ev pl)) + int (length (frames_bytes args)),
                   (dst @ frame_bytes ev pl) @ frames_bytes args)"
    by (rule Cons.IH [OF pl rest])
  show ?case
    using inc ty cp ih ev
    by (subst copy_rest.simps) (simp add: f algebra_simps)
qed

lemma FormatEntry_copyWithAuthor_frames:
  assumes "length p1 \<le> kMaxLength" and "length p2 \<le> kMaxLength" and "length p3 \<le> kMaxLength"
    and "length e \<le> kMaxLength"
    and "\<forall>(ev, pl) \<in> set args. length pl \<le> kMaxLength \<and> ev \<noteq> EVENT_END_FMT"
  shows "FormatEntry_copyWithAuthor
           (pre @ frames_bytes ([(t1, p1), (t2, p2), (t3, p3)] @ args @ [(EVENT_END_FMT, e)]) @ post)
           (int (length pre)) dst author
         = Inr (int (length pre)
                  + int (length (frames_bytes ([(t1, p1), (t2, p2), (t3, p3)] @ args
                                               @ [(EVENT_END_FMT, e)]))),
                dst @ frames_bytes ([(t1, p1), (t2, p2), (t3, p3), (EVENT_AUTHOR, enc_int author)]
                                    @ args @ [(EVENT_END_FMT, e)]))"
proof -
  let ?f1 = "frame_bytes t1 p1" and ?f2 = "frame_bytes t2 p2" and ?f3 = "frame_bytes t3 p3"
  let ?fe = "frame_bytes EVENT_END_FMT e"
  let ?A = "frames_bytes args"
  let ?buf = "pre @ ?f1 @ ?f2 @ ?f3 @ ?A @ ?fe @ post"
  have buf: "pre @ frames_bytes ([(t1, p1), (t2, p2), (t3, p3)] @ args @ [(EVENT_END_FMT, e)]) @ post
             = ?buf"
    by simp
  let ?i0 = "int (length pre)"
  define i1 where "i1 = ?i0 + int (length p1) + 3"
  define i2 where "i2 = i1 + int (length p2) + 3"
  define i3 where "i3 = i2 + int (length p3) + 3 + int (length ?A)"
  define i4 where "i4 = i3 + int (length e) + 3"
  note i_defs = i1_def i2_def i3_def i4_def
  have c1: "copyTo ?buf ?i0 dst = Inr (dst @ ?f1)"
    by (rule copyTo_frame [OF assms(1)])
  have n1: "it_inc ?buf ?i0 = Inr i1"
    unfolding i1_def by (rule it_inc_frame [OF assms(1)])
  have c2: "copyTo ?buf i1 (dst @ ?f1) = Inr (dst @ ?f1 @ ?f2)"
    using copyTo_frame [OF assms(2), of "pre @ ?f1" t2 "?f3 @ ?A @ ?fe @ post" "dst @ ?f1"]
    by (simp add: i_defs algebra_simps)
  have n2: "it_inc ?buf i1 = Inr i2"
    using it_inc_frame [OF assms(2), of "pre @ ?f1" t2 "?f3 @ ?A @ ?fe @ post"]
    by (simp add: i_defs algebra_simps)
  have c3: "copyTo ?buf i2 (dst @ ?f1 @ ?f2) = Inr (dst @ ?f1 @ ?f2 @ ?f3)"
    using copyTo_frame [OF assms(3), of "pre @ ?f1 @ ?f2" t3 "?A @ ?fe @ post" "dst @ ?f1 @ ?f2"]
    by (simp add: i_defs algebra_simps)
  have r: "copy_rest ?buf i2 (dst @ ?f1 @ ?f2 @ ?f3 @ authorEntry author)
           = Inr (i3, dst @ ?f1 @ ?f2 @ ?f3 @ authorEntry author @ ?A)"
    using copy_rest_frames [OF assms(3,5), of "pre @ ?f1 @ ?f2" t3 e post
        "dst @ ?f1 @ ?f2 @ ?f3 @ authorEntry author"]
    by (simp add: i_defs algebra_simps)
  have c4: "copyTo ?buf i3 (dst @ ?f1 @ ?f2 @ ?f3 @ authorEntry author @ ?A)
            = Inr (dst @ ?f1 @ ?f2 @ ?f3 @ authorEntry author @ ?A @ ?fe)"
    using copyTo_frame [OF assms(4), of "pre @ ?f1 @ ?f2 @ ?f3 @ ?A" EVENT_END_FMT post
        "dst @ ?f1 @ ?f2 @ ?f3 @ authorEntry author @ ?A"]
    by (simp add: i_defs algebra_simps)
  have n4: "it_inc ?buf i3 = Inr i4"
    using it_inc_frame [OF assms(4), of "pre @ ?f1 @ ?f2 @ ?f3 @ ?A" EVENT_END_FMT post]
    by (simp add: i_defs algebra_simps)
  have run: "FormatEntry_copyWithAuthor ?buf ?i0 dst author
             = Inr (i4, dst @ ?f1 @ ?f2 @ ?f3 @ authorEntry author @ ?A @ ?fe)"
    by (simp add: FormatEntry_copyWithAuthor_def c1 n1 c2 n2 c3 r c4 n4)
  have i4: "i4 = ?i0 + int (length (?f1 @ ?f2 @ ?f3 @ ?A @ ?fe))"
    by (simp add: i_defs)
  show ?thesis
    unfolding buf run i4 by (simp add: authorEntry_frame)
qed

lemma FormatEntry_author_frames:
  assumes "length p1 \<le> kMaxLength" and "length p2 \<le> kMaxLength" and "length p3 \<le> kMaxLength"
  shows "FormatEntry_author
           (pre @ frames_bytes ((t1, p1) # (t2, p2) # (t3, p3) # (t4, p4) # rest) @ post)
           (int (length pre))
         = (if t4 = EVENT_AUTHOR
            then payload_int (pre @ frames_bytes ((t1, p1) # (t2, p2) # (t3, p3) # (t4, p4) # rest) @ post)
                   (int (length pre) + int (length (frames_bytes [(t1, p1), (t2, p2), (t3, p3)])))
            else Inr (- 1))"
proof -
  let ?f1 = "frame_bytes t1 p1" and ?f2 = "frame_bytes t2 p2" and ?f3 = "frame_bytes t3 p3"
  let ?f4 = "frame_bytes t4 p4"
  let ?R = "frames_bytes rest"
  let ?buf = "pre @ ?f1 @ ?f2 @ ?f3 @ ?f4 @ ?R @ post"
  have buf: "pre @ frames_bytes ((t1, p1) # (t2, p2) # (t3, p3) # (t4, p4) # rest) @ post = ?buf"
    by simp
  let ?i0 = "int (length pre)"
  define i1 where "i1 = ?i0 + int (length p1) + 3"
  define i2 where "i2 = i1 + int (length p2) + 3"
  define i3 where "i3 = i2 + int (length p3) + 3"
  note i_defs = i1_def i2_def i3_def
  have n1: "it_inc ?buf ?i0 = Inr i1"
    unfolding i1_def by (rule it_inc_frame [OF assms(1)])
  have n2: "it_inc ?buf i1 = Inr i2"
    using it_inc_frame [OF assms(2), of "pre @ ?f1" t2 "?f3 @ ?f4 @ ?R @ post"]
    by (simp add: i_defs algebra_simps)
  have n3: "it_inc ?buf i2 = Inr i3"
    using it_inc_frame [OF assms(3), of "pre @ ?f1 @ ?f2" t3 "?f4 @ ?R @ post"]
    by (simp add: i_defs algebra_simps)
  have ty: "it_type ?buf i3 = Inr t4"
    using it_type_frame [of "pre @ ?f1 @ ?f2 @ ?f3" t4 p4 "?R @ post"]
    by (simp add: i_defs algebra_simps)
  have run: "FormatEntry_author ?buf ?i0 = (if t4 = EVENT_AUTHOR then payload_int ?buf i3 else Inr (- 1))"
    by (simp add: FormatEntry_author_def n1 n2 n3 ty)
  have i3: "i3 = ?i0 + int (length (frames_bytes [(t1, p1), (t2, p2), (t3, p3)]))"
    by (simp add: i_defs)
  show ?thesis
    unfolding buf run i3 by simp
qed

lemma payload_int_frame:
  "payload_int (pre @ frame_bytes ev (enc_int x @ sfx) @ post) (int (length pre)) = Inr x"
proof -
  have "rd_range ((pre @ [ev, of_nat (length (enc_int x @ sfx))]) @ enc_int x
                  @ (sfx @ [of_nat (length (enc_int x @ sfx))] @ post))
          (int (length (pre @ [ev, of_nat (length (enc_int x @ sfx))]))) (length (enc_int x))
        = Inr (enc_int x)"
    by (rule rd_range_mid)
  then show ?thesis
    by (simp add: payload_int_def frame_bytes_def off_data_def sizeof_int_def algebra_simps)
qed

lemma length_hist_padding:
  "abi_ok a \<Longrightarrow> length stack = kOverhead + sizeof_HistTsEntryWithAuthor a \<Longrightarrow>
   length (hist_padding a stack) = sizeof_HistTsEntryWithAuthor a - sizeof_HistTsEntry a - sizeof_int"
  by (simp add: hist_padding_def abi_ok_def kOverhead_def)

lemma HistogramEntry_copyWithAuthor_frame:
  assumes ok: "abi_ok a" and hp: "length hp = sizeof_HistTsEntry a"
    and st: "length stack = kOverhead + sizeof_HistTsEntryWithAuthor a"
  shows "HistogramEntry_copyWithAuthor a stack (pre @ frame_bytes ty hp @ post) (int (length pre))
           dst author
         = Inr (int (length pre) + int (length hp) + 3,
                dst @ frame_bytes ty (hp @ enc_int author @ hist_padding a stack))"
proof -
  let ?S = "sizeof_HistTsEntryWithAuthor a" and ?H = "sizeof_HistTsEntry a"
  let ?buf = "pre @ frame_bytes ty hp @ post"
  let ?pad = "hist_padding a stack"
  have sz: "?H + 4 \<le> ?S" "?S \<le> kMaxLength"
    using ok by (simp_all add: abi_ok_def sizeof_int_def)
  have hpk: "length hp \<le> kMaxLength" using hp sz by simp
  have padlen: "length ?pad = ?S - ?H - 4"
    using length_hist_padding [OF ok st] by (simp add: sizeof_int_def)
  define L :: byte where "L = of_nat (length hp)"
  define S :: byte where "S = of_nat ?S"
  define src where "src = [ty, L] @ hp"
  have ls: "length src = 2 + ?H" using hp by (simp add: src_def)
  have src: "rd_range ?buf (int (length pre)) (2 + ?H) = Inr src"
    using rd_range_mid [of pre "[ty, L] @ hp" "[L] @ post"] hp
    by (simp add: frame_bytes_def L_def src_def)
  have dl: "length (drop (2 + ?H + 4) stack) = Suc (length ?pad)"
    using st sz padlen by (simp add: kOverhead_def)
  have "take (length ?pad) (drop (2 + ?H + 4) stack) = ?pad"
    by (simp add: hist_padding_def sizeof_int_def min_def)
  then obtain z where z: "drop (2 + ?H + 4) stack = ?pad @ [z]"
    using dl by (metis append_take_drop_id length_Suc_conv_rev append_eq_conv_conj)
  have b1: "take (2 + ?H) (src @ drop (2 + ?H) stack) = src"
    using ls by simp
  have "drop (2 + ?H + sizeof_int) (src @ drop (2 + ?H) stack)
        = drop sizeof_int (drop (2 + ?H) stack)"
    using ls by simp
  also have "\<dots> = drop (2 + ?H + 4) stack"
    unfolding drop_drop sizeof_int_def by (simp add: add.commute)
  finally have b2: "drop (2 + ?H + sizeof_int) (src @ drop (2 + ?H) stack) = ?pad @ [z]"
    using z by simp
  let ?body = "hp @ enc_int author @ ?pad"
  have blen: "length ?body = ?S" using hp padlen sz by simp
  have upd1: "(src @ enc_int author @ ?pad @ [z])[1 := S] = ([ty, S] @ ?body) @ [z]"
    by (simp add: src_def)
  have upd2: "(([ty, S] @ ?body) @ [z])[kOverhead + ?S - 1 := S] = ([ty, S] @ ?body) @ [S]"
  proof -
    have idx: "kOverhead + ?S - 1 = length ([ty, S] @ ?body)"
      using blen by (simp add: kOverhead_def)
    show ?thesis unfolding idx by (rule list_update_length)
  qed
  have tk: "take (kOverhead + ?S) (([ty, S] @ ?body) @ [S]) = ([ty, S] @ ?body) @ [S]"
    using blen by (simp add: kOverhead_def)
  have fb: "([ty, S] @ ?body) @ [S] = frame_bytes ty ?body"
    using blen by (simp add: frame_bytes_def S_def)
  have inc: "it_inc ?buf (int (length pre)) = Inr (int (length pre) + int (length hp) + 3)"
    by (rule it_inc_frame [OF hpk])
  show ?thesis
    unfolding HistogramEntry_copyWithAuthor_def Let_def src sum.case b1 b2
    unfolding S_def [symmetric] upd1 upd2 tk fb inc
    using blen by (simp add: kOverhead_def)
qed

lemma HistogramEntry_author_frame:
  assumes ok: "abi_ok a" and bound: "length pl \<le> kMaxLength"
  shows "HistogramEntry_author a (pre @ frame_bytes ty pl @ post) (int (length pre))
         = (if length pl = sizeof_HistTsEntryWithAuthor a
            then Inr (dec_int (drop (sizeof_HistTsEntry a) pl))
            else Inr (- 1))"
proof -
  let ?S = "sizeof_HistTsEntryWithAuthor a" and ?H = "sizeof_HistTsEntry a"
  have sz: "?H + 4 \<le> ?S" "?S \<le> kMaxLength"
    using ok by (simp_all add: abi_ok_def sizeof_int_def)
  have len: "it_length (pre @ frame_bytes ty pl @ post) (int (length pre)) = Inr (of_nat (length pl))"
    by (rule it_length_frame)
  have u: "unat (of_nat (length pl) :: byte) = length pl"
    using bound by (simp add: kMaxLength_def unat_of_nat)
  show ?thesis
  proof (cases "length pl = ?S")
    case False
    then show ?thesis by (simp add: HistogramEntry_author_def len u)
  next
    case eq: True
    let ?mid = "take 4 (drop ?H pl)"
    have r: "rd_range (pre @ frame_bytes ty pl @ post)
               (int (length pre) + off_data + int ?H) sizeof_int = Inr ?mid"
      using eq sz
      by (simp add: rd_range_def frame_bytes_def off_data_def sizeof_int_def nat_add_distrib)
    have "dec_int ?mid = dec_int (drop ?H pl)"
      by (simp add: dec_int_def sizeof_int_def)
    moreover have "unat (of_nat ?S :: byte) = ?S" using u eq by simp
    ultimately show ?thesis
      using eq by (simp add: HistogramEntry_author_def len r)
  qed
qed

lemma FormatEntry_author_of_author_frame:
  assumes "length p1 \<le> kMaxLength" and "length p2 \<le> kMaxLength" and "length p3 \<le> kMaxLength"
  shows "FormatEntry_author
           (pre @ frames_bytes ((t1, p1) # (t2, p2) # (t3, p3) # (EVENT_AUTHOR, enc_int x @ sfx) # rest)
              @ post) (int (length pre)) = Inr x"
proof -
  have "payload_int ((pre @ frames_bytes [(t1, p1), (t2, p2), (t3, p3)])
                     @ frame_bytes EVENT_AUTHOR (enc_int x @ sfx) @ (frames_bytes rest @ post))
          (int (length (pre @ frames_bytes [(t1, p1), (t2, p2), (t3, p3)]))) = Inr x"
    by (rule payload_int_frame)
  then show ?thesis
    using FormatEntry_author_frames [OF assms, of pre t1 t2 t3 EVENT_AUTHOR "enc_int x @ sfx" rest post]
    by simp
qed

text \<open>
  Claim C5. \<open>copyWithAuthor(dst, i)\<close> on a well-formed source record without an author
  frame. For a format entry \<open>START_FMT, TIMESTAMP, HASH, args, END_FMT\<close> it writes the first
  three frames, the author frame of \<open>i\<close>, the argument frames and \<open>END_FMT\<close>, and returns
  the iterator past the record; the written record has exactly one \<open>AUTHOR\<close> frame, and its
  \<open>author()\<close> is \<open>i\<close>. For a histogram entry with a \<open>HistTsEntry\<close> payload \<open>hp\<close> it writes
  one frame whose two length bytes are \<open>sizeof(HistTsEntryWithAuthor)\<close> and whose payload
  is \<open>hp\<close>, then \<open>i\<close>, then the padding of the struct (bytes left as the stack had them);
  its \<open>author()\<close> is \<open>i\<close>.
\<close>

theorem copyWithAuthor_writes_one_author:
  assumes "length p1 \<le> kMaxLength" and "length p2 \<le> kMaxLength" and "length p3 \<le> kMaxLength"
    and "\<forall>(ev, pl) \<in> set args. length pl \<le> kMaxLength \<and> ev \<noteq> EVENT_END_FMT \<and> ev \<noteq> EVENT_AUTHOR"
    and "abi_ok a" and "length hp = sizeof_HistTsEntry a"
    and "length stack = kOverhead + sizeof_HistTsEntryWithAuthor a"
  shows "FormatEntry_copyWithAuthor
           (pre @ frames_bytes ([(EVENT_START_FMT, p1), (EVENT_TIMESTAMP, p2), (EVENT_HASH, p3)]
                                @ args @ [(EVENT_END_FMT, [])]) @ post)
           (int (length pre)) dst i
         = Inr (int (length pre)
                  + int (length (frames_bytes ([(EVENT_START_FMT, p1), (EVENT_TIMESTAMP, p2),
                                                (EVENT_HASH, p3)] @ args @ [(EVENT_END_FMT, [])]))),
                dst @ frames_bytes ([(EVENT_START_FMT, p1), (EVENT_TIMESTAMP, p2), (EVENT_HASH, p3),
                                     (EVENT_AUTHOR, enc_int i)] @ args @ [(EVENT_END_FMT, [])]))
       \<and> length (filter (\<lambda>(ev, pl). ev = EVENT_AUTHOR)
                  ([(EVENT_START_FMT, p1), (EVENT_TIMESTAMP, p2), (EVENT_HASH, p3),
                    (EVENT_AUTHOR, enc_int i)] @ args @ [(EVENT_END_FMT, [])])) = 1
       \<and> FormatEntry_author
            (frames_bytes ([(EVENT_START_FMT, p1), (EVENT_TIMESTAMP, p2), (EVENT_HASH, p3),
                            (EVENT_AUTHOR, enc_int i)] @ args @ [(EVENT_END_FMT, [])])) 0 = Inr i
       \<and> HistogramEntry_copyWithAuthor a stack (pre @ frame_bytes ty hp @ post) (int (length pre)) dst i
         = Inr (int (length pre) + int (length hp) + 3,
                dst @ [ty, of_nat (sizeof_HistTsEntryWithAuthor a)]
                    @ (hp @ enc_int i @ hist_padding a stack)
                    @ [of_nat (sizeof_HistTsEntryWithAuthor a)])
       \<and> length (hp @ enc_int i @ hist_padding a stack) = sizeof_HistTsEntryWithAuthor a
       \<and> HistogramEntry_author a
            ([ty, of_nat (sizeof_HistTsEntryWithAuthor a)] @ (hp @ enc_int i @ hist_padding a stack)
               @ [of_nat (sizeof_HistTsEntryWithAuthor a)]) 0 = Inr i"
proof -
  let ?S = "sizeof_HistTsEntryWithAuthor a"
  let ?body = "hp @ enc_int i @ hist_padding a stack"
  have args': "\<forall>(ev, pl) \<in> set args. length pl \<le> kMaxLength \<and> ev \<noteq> EVENT_END_FMT"
    using assms(4) by auto
  have e: "length ([] :: byte list) \<le> kMaxLength" by simp
  have c1: "FormatEntry_copyWithAuthor
           (pre @ frames_bytes ([(EVENT_START_FMT, p1), (EVENT_TIMESTAMP, p2), (EVENT_HASH, p3)]
                                @ args @ [(EVENT_END_FMT, [])]) @ post)
           (int (length pre)) dst i
         = Inr (int (length pre)
                  + int (length (frames_bytes ([(EVENT_START_FMT, p1), (EVENT_TIMESTAMP, p2),
                                                (EVENT_HASH, p3)] @ args @ [(EVENT_END_FMT, [])]))),
                dst @ frames_bytes ([(EVENT_START_FMT, p1), (EVENT_TIMESTAMP, p2), (EVENT_HASH, p3),
                                     (EVENT_AUTHOR, enc_int i)] @ args @ [(EVENT_END_FMT, [])]))"
    by (rule FormatEntry_copyWithAuthor_frames [OF assms(1-3) e args'])
  have "filter (\<lambda>(ev, pl). ev = EVENT_AUTHOR) args = []"
    using assms(4) by (auto simp: filter_empty_conv)
  then have c2: "length (filter (\<lambda>(ev, pl). ev = EVENT_AUTHOR)
                  ([(EVENT_START_FMT, p1), (EVENT_TIMESTAMP, p2), (EVENT_HASH, p3),
                    (EVENT_AUTHOR, enc_int i)] @ args @ [(EVENT_END_FMT, [])])) = 1"
    by (simp add: event_defs)
  have c3: "FormatEntry_author
            (frames_bytes ([(EVENT_START_FMT, p1), (EVENT_TIMESTAMP, p2), (EVENT_HASH, p3),
                            (EVENT_AUTHOR, enc_int i)] @ args @ [(EVENT_END_FMT, [])])) 0 = Inr i"
    using FormatEntry_author_of_author_frame [OF assms(1-3), of "[]" EVENT_START_FMT EVENT_TIMESTAMP
        EVENT_HASH i "[]" "args @ [(EVENT_END_FMT, [])]" "[]"]
    by simp
  have blen: "length ?body = ?S"
    using length_hist_padding [OF assms(5,7)] assms(5,6) by (simp add: abi_ok_def sizeof_int_def)
  have fb: "frame_bytes ty ?body = [ty, of_nat ?S] @ ?body @ [of_nat ?S]"
    unfolding frame_bytes_def blen by (rule refl)
  have c4: "HistogramEntry_copyWithAuthor a stack (pre @ frame_bytes ty hp @ post) (int (length pre)) dst i
         = Inr (int (length pre) + int (length hp) + 3, dst @ [ty, of_nat ?S] @ ?body @ [of_nat ?S])"
    using HistogramEntry_copyWithAuthor_frame [OF assms(5-7), of pre ty post dst i]
    unfolding fb .
  have bk: "length ?body \<le> kMaxLength" using blen assms(5) by (simp add: abi_ok_def)
  have "dec_int (drop (sizeof_HistTsEntry a) ?body) = i"
    using assms(6) by simp
  then have c6: "HistogramEntry_author a ([ty, of_nat ?S] @ ?body @ [of_nat ?S]) 0 = Inr i"
    using HistogramEntry_author_frame [OF assms(5) bk, of "[]" ty "[]"] blen
    unfolding fb by simp
  show ?thesis
    using c1 c2 c3 c4 blen c6 by blast
qed

theorem copyWithAuthor_writes_one_author_witness:
  "FormatEntry_copyWithAuthor
     (frames_bytes [(EVENT_START_FMT, [120]), (EVENT_TIMESTAMP, [1, 2]), (EVENT_HASH, [3]),
                    (EVENT_INTEGER, [7, 0, 0, 0]), (EVENT_END_FMT, [])]) 0 [] 5
   = Inr (23, frames_bytes [(EVENT_START_FMT, [120]), (EVENT_TIMESTAMP, [1, 2]), (EVENT_HASH, [3]),
                            (EVENT_AUTHOR, [5, 0, 0, 0]), (EVENT_INTEGER, [7, 0, 0, 0]),
                            (EVENT_END_FMT, [])])
   \<and> HistogramEntry_copyWithAuthor lp64 (replicate 35 0xAA)
       (frame_bytes EVENT_HISTOGRAM_ENTRY_TS (replicate 24 1)) 0 [] 5
     = Inr (27, [EVENT_HISTOGRAM_ENTRY_TS, 32] @ (replicate 24 1 @ [5, 0, 0, 0] @ replicate 4 0xAA) @ [32])"
proof -
  let ?args = "[(EVENT_INTEGER, [7, 0, 0, 0])] :: frame list"
  let ?stack = "replicate 35 0xAA :: byte list"
  let ?hp = "replicate 24 1 :: byte list"
  have h1: "length ([120] :: byte list) \<le> kMaxLength" by (simp add: kMaxLength_def)
  have h2: "length ([1, 2] :: byte list) \<le> kMaxLength" by (simp add: kMaxLength_def)
  have h3: "length ([3] :: byte list) \<le> kMaxLength" by (simp add: kMaxLength_def)
  have h4: "\<forall>(ev, pl) \<in> set ?args. length pl \<le> kMaxLength \<and> ev \<noteq> EVENT_END_FMT \<and> ev \<noteq> EVENT_AUTHOR"
    by (simp add: kMaxLength_def event_defs)
  have h5: "abi_ok lp64" by code_simp
  have h6: "length ?hp = sizeof_HistTsEntry lp64" by (simp add: lp64_def)
  have h7: "length ?stack = kOverhead + sizeof_HistTsEntryWithAuthor lp64"
    by (simp add: lp64_def kOverhead_def)
  have e: "enc_int 5 = [5, 0, 0, 0]" by code_simp
  have pad: "hist_padding lp64 ?stack = replicate 4 0xAA" by code_simp
  have s: "(of_nat (sizeof_HistTsEntryWithAuthor lp64) :: byte) = 32" by (simp add: lp64_def)
  note inst = copyWithAuthor_writes_one_author [OF h1 h2 h3 h4 h5 h6 h7, of "[]" "[]" "[]" 5
      EVENT_HISTOGRAM_ENTRY_TS]
  have a: "FormatEntry_copyWithAuthor
     (frames_bytes [(EVENT_START_FMT, [120]), (EVENT_TIMESTAMP, [1, 2]), (EVENT_HASH, [3]),
                    (EVENT_INTEGER, [7, 0, 0, 0]), (EVENT_END_FMT, [])]) 0 [] 5
   = Inr (23, frames_bytes [(EVENT_START_FMT, [120]), (EVENT_TIMESTAMP, [1, 2]), (EVENT_HASH, [3]),
                            (EVENT_AUTHOR, [5, 0, 0, 0]), (EVENT_INTEGER, [7, 0, 0, 0]),
                            (EVENT_END_FMT, [])])"
    using inst [THEN conjunct1] unfolding e by simp
  have b: "HistogramEntry_copyWithAuthor lp64 ?stack
       (frame_bytes EVENT_HISTOGRAM_ENTRY_TS ?hp) 0 [] 5
     = Inr (27, [EVENT_HISTOGRAM_ENTRY_TS, 32] @ (?hp @ [5, 0, 0, 0] @ replicate 4 0xAA) @ [32])"
    using inst [THEN conjunct2, THEN conjunct2, THEN conjunct2, THEN conjunct1]
    unfolding e pad s by simp
  show ?thesis using a b by (rule conjI)
qed

text \<open>
  Claim C10. \<open>author()\<close> answers \<open>-1\<close> for a record without an author tag. For a format
  entry whose fourth frame is not of type \<open>AUTHOR\<close> it is \<open>-1\<close>, and for one whose fourth
  frame is an \<open>AUTHOR\<close> frame it is the \<open>int\<close> at the start of that frame's payload. For a
  histogram entry whose length byte is not \<open>sizeof(HistTsEntryWithAuthor)\<close> it is \<open>-1\<close>,
  otherwise it is the \<open>author\<close> member, the \<open>int\<close> after the \<open>HistTsEntry\<close> members.
\<close>

theorem author_minus_one_when_untagged:
  assumes "length p1 \<le> kMaxLength" and "length p2 \<le> kMaxLength" and "length p3 \<le> kMaxLength"
    and "abi_ok a" and "length pl \<le> kMaxLength"
  shows "(t4 \<noteq> EVENT_AUTHOR \<longrightarrow>
            FormatEntry_author
              (pre @ frames_bytes ((t1, p1) # (t2, p2) # (t3, p3) # (t4, p4) # rest) @ post)
              (int (length pre)) = Inr (- 1))
         \<and> FormatEntry_author
              (pre @ frames_bytes ((t1, p1) # (t2, p2) # (t3, p3) # (EVENT_AUTHOR, enc_int x @ sfx) # rest)
                 @ post) (int (length pre)) = Inr x
         \<and> (length pl \<noteq> sizeof_HistTsEntryWithAuthor a \<longrightarrow>
              HistogramEntry_author a (pre @ frame_bytes ty pl @ post) (int (length pre)) = Inr (- 1))
         \<and> (length pl = sizeof_HistTsEntryWithAuthor a \<longrightarrow>
              HistogramEntry_author a (pre @ frame_bytes ty pl @ post) (int (length pre))
                = Inr (dec_int (drop (sizeof_HistTsEntry a) pl)))"
  using FormatEntry_author_frames [OF assms(1-3), of pre t1 t2 t3 t4 p4 rest post]
    FormatEntry_author_of_author_frame [OF assms(1-3), of pre t1 t2 t3 x sfx rest post]
    HistogramEntry_author_frame [OF assms(4,5), of pre ty post]
  by simp

theorem author_minus_one_when_untagged_witness:
  "FormatEntry_author
     (frames_bytes [(EVENT_START_FMT, [120]), (EVENT_TIMESTAMP, [1, 2]), (EVENT_HASH, [3]),
                    (EVENT_INTEGER, [7, 0, 0, 0]), (EVENT_END_FMT, [])]) 0 = Inr (- 1)
   \<and> FormatEntry_author
     (frames_bytes [(EVENT_START_FMT, [120]), (EVENT_TIMESTAMP, [1, 2]), (EVENT_HASH, [3]),
                    (EVENT_AUTHOR, enc_int 5), (EVENT_END_FMT, [])]) 0 = Inr 5
   \<and> HistogramEntry_author lp64 (frame_bytes EVENT_HISTOGRAM_ENTRY_TS (replicate 24 1)) 0 = Inr (- 1)
   \<and> HistogramEntry_author lp64
       (frame_bytes EVENT_HISTOGRAM_ENTRY_TS (replicate 24 1 @ [5, 0, 0, 0, 9, 9, 9, 9])) 0 = Inr 5"
proof -
  have h1: "length ([120] :: byte list) \<le> kMaxLength" by (simp add: kMaxLength_def)
  have h2: "length ([1, 2] :: byte list) \<le> kMaxLength" by (simp add: kMaxLength_def)
  have h3: "length ([3] :: byte list) \<le> kMaxLength" by (simp add: kMaxLength_def)
  have h4: "abi_ok lp64" by code_simp
  have h5: "length (replicate 24 1 :: byte list) \<le> kMaxLength" by (simp add: kMaxLength_def)
  have h6: "length (replicate 24 1 @ [5, 0, 0, 0, 9, 9, 9, 9] :: byte list) \<le> kMaxLength"
    by (simp add: kMaxLength_def)
  have d: "dec_int [5, 0, 0, 0, 9, 9, 9, 9] = 5" by code_simp
  have ne: "EVENT_INTEGER \<noteq> EVENT_AUTHOR" by (simp add: event_defs)
  have a: "FormatEntry_author
     (frames_bytes [(EVENT_START_FMT, [120]), (EVENT_TIMESTAMP, [1, 2]), (EVENT_HASH, [3]),
                    (EVENT_INTEGER, [7, 0, 0, 0]), (EVENT_END_FMT, [])]) 0 = Inr (- 1)"
    using author_minus_one_when_untagged [OF h1 h2 h3 h4 h5, of EVENT_INTEGER "[]" EVENT_START_FMT
        EVENT_TIMESTAMP EVENT_HASH "[7, 0, 0, 0]" "[(EVENT_END_FMT, [])]" "[]", THEN conjunct1] ne
    by simp
  have b: "FormatEntry_author
     (frames_bytes [(EVENT_START_FMT, [120]), (EVENT_TIMESTAMP, [1, 2]), (EVENT_HASH, [3]),
                    (EVENT_AUTHOR, enc_int 5), (EVENT_END_FMT, [])]) 0 = Inr 5"
    using author_minus_one_when_untagged [OF h1 h2 h3 h4 h5, where pre = "[]" and post = "[]"
        and ?t1.0 = EVENT_START_FMT and ?t2.0 = EVENT_TIMESTAMP and ?t3.0 = EVENT_HASH and x = 5
        and sfx = "[]" and rest = "[(EVENT_END_FMT, [])]", THEN conjunct2, THEN conjunct1]
    by simp
  have c: "HistogramEntry_author lp64 (frame_bytes EVENT_HISTOGRAM_ENTRY_TS (replicate 24 1)) 0 = Inr (- 1)"
    using author_minus_one_when_untagged [OF h1 h2 h3 h4 h5, where pre = "[]" and post = "[]"
        and ty = EVENT_HISTOGRAM_ENTRY_TS, THEN conjunct2, THEN conjunct2, THEN conjunct1]
    by (simp add: lp64_def)
  have d': "HistogramEntry_author lp64
       (frame_bytes EVENT_HISTOGRAM_ENTRY_TS (replicate 24 1 @ [5, 0, 0, 0, 9, 9, 9, 9])) 0 = Inr 5"
    using author_minus_one_when_untagged [OF h1 h2 h3 h4 h6, where pre = "[]" and post = "[]"
        and ty = EVENT_HISTOGRAM_ENTRY_TS, THEN conjunct2, THEN conjunct2, THEN conjunct2] d
    by (simp add: lp64_def)
  show ?thesis using a b c d' by blast
qed

declare digits.simps [simp del]

lemma mask16: "(0xFFFF :: 32 word) = mask 16" by (simp add: mask_eq_exp_minus_1)

lemma unat_low16: "unat ((w :: 32 word) AND 0xFFFF) = unat w mod 65536"
proof -
  have "unat (w AND mask 16) = take_bit 16 (unat w)"
    by (simp only: take_bit_eq_mask [symmetric] unsigned_take_bit_eq)
  then show ?thesis unfolding mask16 by (simp add: take_bit_eq_mod)
qed

lemma unat_ucast_64_32: "unat (ucast (h :: 64 word) :: 32 word) = unat h mod 4294967296"
  by (simp add: unsigned_ucast_eq take_bit_eq_mod)

lemma dvd16: "(65536 :: nat) dvd 4294967296"
  by (rule dvdI [of _ _ 65536]) simp

lemma hash_hi_bits:
  "unat ((ucast (drop_bit 16 (h :: 64 word)) :: 32 word) AND 0xFFFF) = unat h div 65536 mod 65536"
proof -
  have "unat (drop_bit 16 h) = unat h div 65536"
    by (simp only: unat_drop_bit_eq) (simp add: drop_bit_eq_div)
  then show ?thesis
    by (simp only: unat_low16 unat_ucast_64_32 mod_mod_cancel [OF dvd16])
qed

lemma hash_lo_bits:
  "sint ((ucast (h :: 64 word) :: 32 word) AND 0xFFFF) = int (unat h mod 65536)"
proof -
  let ?w = "(ucast h :: 32 word) AND 0xFFFF"
  have u: "unat ?w = unat h mod 65536"
    by (simp add: unat_low16 unat_ucast_64_32 mod_mod_cancel [OF dvd16])
  have "unat h mod 65536 < 2 ^ 31"
    by (rule less_trans [of _ 65536]) simp_all
  then have r: "0 \<le> uint ?w" "uint ?w < 2 ^ 31"
    using u by (simp_all add: uint_nat)
  have "sint ?w = signed_take_bit 31 (uint ?w)"
    by (simp add: sint_uint)
  also have "\<dots> = uint ?w"
  proof (rule signed_take_bit_int_eq_self [OF _ r(2)])
    show "- (2 ^ 31) \<le> uint ?w"
      by (rule order_trans [OF _ r(1)]) simp
  qed
  finally show ?thesis using u by (simp add: uint_nat)
qed

lemma printf_X_digits:
  "n < 16 ^ k \<Longrightarrow>
   replicate (k - length (digits 16 n)) (CHR ''0'') @ digits 16 n
   = map (\<lambda>i. hex_digit (n div 16 ^ i mod 16)) (rev [0..<k])"
proof (induction k arbitrary: n)
  case 0
  then show ?case by (simp add: digits.simps)
next
  case (Suc k)
  show ?case
  proof (cases "n = 0")
    case True
    have z: "hex_digit 0 = CHR ''0''" by (simp add: hex_digit_def)
    have "map (\<lambda>i. hex_digit (0 div 16 ^ i mod 16)) (rev [0..<Suc k])
          = map (\<lambda>i. CHR ''0'') (rev [0..<Suc k])"
      by (simp add: z)
    also have "\<dots> = replicate (length (rev [0..<Suc k])) (CHR ''0'')"
      by (rule map_replicate_const)
    finally have rhs: "map (\<lambda>i. hex_digit (0 div 16 ^ i mod 16)) (rev [0..<Suc k])
                  = replicate (Suc k) (CHR ''0'')"
      by (simp only: length_rev length_upt diff_zero)
    have d0: "digits 16 0 = []" by (simp add: digits.simps)
    show ?thesis unfolding True d0 rhs by simp
  next
    case False
    let ?f = "\<lambda>i. hex_digit (n div 16 ^ i mod 16)"
    have d: "digits 16 n = digits 16 (n div 16) @ [hex_digit (n mod 16)]"
      using False by (subst digits.simps) simp
    have "n div 16 < 16 ^ k" using Suc.prems by (simp add: less_mult_imp_div_less mult.commute)
    then have ih: "replicate (k - length (digits 16 (n div 16))) (CHR ''0'') @ digits 16 (n div 16)
                   = map (\<lambda>i. hex_digit (n div 16 div 16 ^ i mod 16)) (rev [0..<k])"
      by (rule Suc.IH)
    have "[0..<Suc k] = 0 # map Suc [0..<k]"
      by (simp add: upt_conv_Cons map_Suc_upt del: upt_Suc)
    then have "map ?f (rev [0..<Suc k]) = map (\<lambda>i. ?f (Suc i)) (rev [0..<k]) @ [?f 0]"
      by (simp add: rev_map comp_def del: upt_Suc)
    also have "(\<lambda>i. ?f (Suc i)) = (\<lambda>i. hex_digit (n div 16 div 16 ^ i mod 16))"
      by (simp add: div_mult2_eq)
    finally have "map ?f (rev [0..<Suc k])
                  = (replicate (k - length (digits 16 (n div 16))) (CHR ''0'') @ digits 16 (n div 16))
                    @ [hex_digit (n mod 16)]"
      using ih by simp
    then show ?thesis by (simp add: d)
  qed
qed

lemma printf_X_4:
  assumes "n < 65536"
  shows "printf_X 4 n = [hex_digit (n div 4096 mod 16), hex_digit (n div 256 mod 16),
                         hex_digit (n div 16 mod 16), hex_digit (n mod 16)]"
proof -
  have "n < 16 ^ 4" using assms by simp
  then have "printf_X 4 n = map (\<lambda>i. hex_digit (n div 16 ^ i mod 16)) (rev [0..<4])"
    unfolding printf_X_def by (rule printf_X_digits)
  moreover have "[0..<4] = [0, 1, 2, 3]" by (simp add: upt_rec)
  ultimately show ?thesis by simp
qed

lemma FormatEntry_hash_frames:
  assumes "length p1 \<le> kMaxLength" and "length p2 \<le> kMaxLength"
  shows "FormatEntry_hash
           (pre @ frames_bytes ((t1, p1) # (t2, p2) # (EVENT_HASH, enc_hash h) # rest) @ post)
           (int (length pre)) = Inr h"
proof -
  let ?f1 = "frame_bytes t1 p1" and ?f2 = "frame_bytes t2 p2"
  let ?f3 = "frame_bytes EVENT_HASH (enc_hash h)"
  let ?R = "frames_bytes rest"
  let ?buf = "pre @ ?f1 @ ?f2 @ ?f3 @ ?R @ post"
  have buf: "pre @ frames_bytes ((t1, p1) # (t2, p2) # (EVENT_HASH, enc_hash h) # rest) @ post = ?buf"
    by simp
  let ?i0 = "int (length pre)"
  define i1 where "i1 = ?i0 + int (length p1) + 3"
  define i2 where "i2 = i1 + int (length p2) + 3"
  note i_defs = i1_def i2_def
  have n1: "it_inc ?buf ?i0 = Inr i1"
    unfolding i1_def by (rule it_inc_frame [OF assms(1)])
  have n2: "it_inc ?buf i1 = Inr i2"
    using it_inc_frame [OF assms(2), of "pre @ ?f1" t2 "?f3 @ ?R @ post"]
    by (simp add: i_defs algebra_simps)
  have "rd_range ((pre @ ?f1 @ ?f2 @ [EVENT_HASH, of_nat (length (enc_hash h))]) @ enc_hash h
                  @ ([of_nat (length (enc_hash h))] @ ?R @ post))
          (int (length (pre @ ?f1 @ ?f2 @ [EVENT_HASH, of_nat (length (enc_hash h))])))
          (length (enc_hash h)) = Inr (enc_hash h)"
    by (rule rd_range_mid)
  then have r: "rd_range ?buf (i2 + off_data) sizeof_hash = Inr (enc_hash h)"
    by (simp add: i_defs frame_bytes_def off_data_def sizeof_hash_def algebra_simps)
  show ?thesis
    unfolding buf by (simp add: FormatEntry_hash_def n1 n2 r)
qed

text \<open>
  Claim C9, as the code has it. For a record whose third frame is the \<open>HASH\<close> frame of
  \<open>hash\<close>, the formatter renders the hash field as \<open>XXXX-N\<close> and a space: \<open>XXXX\<close> are the
  four upper-case hexadecimal digits of bits 16 to 31 of the hash (the lower 16 bits of
  \<open>hash >> 16\<close>), and \<open>N\<close> is the decimal value of its lower 16 bits.
\<close>

theorem handleFormat_hash_field:
  assumes "length p1 \<le> kMaxLength" and "length p2 \<le> kMaxLength"
  shows "handleFormat_hash
           (pre @ frames_bytes ((t1, p1) # (t2, p2) # (EVENT_HASH, enc_hash h) # rest) @ post)
           (int (length pre))
         = (let hi = unat h div 65536 mod 65536; lo = unat h mod 65536
            in Inr ([hex_digit (hi div 4096 mod 16), hex_digit (hi div 256 mod 16),
                     hex_digit (hi div 16 mod 16), hex_digit (hi mod 16)]
                    @ ''-'' @ printf_d (int lo) @ '' ''))"
proof -
  have "unat h div 65536 mod 65536 < 65536" by simp
  from printf_X_4 [OF this]
  have x: "printf_X 4 (unat h div 65536 mod 65536)
           = [hex_digit (unat h div 65536 mod 65536 div 4096 mod 16),
              hex_digit (unat h div 65536 mod 65536 div 256 mod 16),
              hex_digit (unat h div 65536 mod 65536 div 16 mod 16),
              hex_digit (unat h div 65536 mod 65536 mod 16)]" .
  have fh: "FormatEntry_hash
              (pre @ frames_bytes ((t1, p1) # (t2, p2) # (EVENT_HASH, enc_hash h) # rest) @ post)
              (int (length pre)) = Inr h"
    by (rule FormatEntry_hash_frames [OF assms])
  show ?thesis
    unfolding handleFormat_hash_def fh sum.case Let_def hash_hi_bits hash_lo_bits x
    by simp
qed

lemma digits_0: "digits base 0 = []"
  by (simp add: digits.simps)

lemma digits_step:
  "0 < n \<Longrightarrow> 2 \<le> base \<Longrightarrow> digits base n = digits base (n div base) @ [hex_digit (n mod base)]"
  by (subst digits.simps) simp

lemma example_hash_field:
  "(let hi = unat (0xDEADBEEFCAFEBABE :: 64 word) div 65536 mod 65536;
        lo = unat (0xDEADBEEFCAFEBABE :: 64 word) mod 65536
    in Inr ([hex_digit (hi div 4096 mod 16), hex_digit (hi div 256 mod 16),
             hex_digit (hi div 16 mod 16), hex_digit (hi mod 16)]
            @ ''-'' @ printf_d (int lo) @ '' '') :: error + string) = Inr ''CAFE-47806 ''"
  by (simp add: Let_def printf_d_def digits_step digits_0 hex_digit_def)

lemma example_record:
  "logFormat ucast lp64 (Writer_new True 1234 ''audio'') (Some \<lparr>tv_sec = 5, tv_nsec = 7\<rparr>)
     ''x=%d pid=%p'' 0xDEADBEEFCAFEBABE [VaInt 7]
   = Inr ((Writer_new True 1234 ''audio'')\<lparr>mFifoWriter := Some (frames_bytes
        [(EVENT_START_FMT, map of_char ''x=%d pid=%p''),
         (EVENT_TIMESTAMP, [5, 0, 0, 0, 0, 0, 0, 0, 7, 0, 0, 0, 0, 0, 0, 0]),
         (EVENT_HASH, enc_hash 0xDEADBEEFCAFEBABE),
         (EVENT_INTEGER, [7, 0, 0, 0]),
         (EVENT_PID, [0xD2, 4, 0, 0] @ map of_char ''audio''),
         (EVENT_END_FMT, [])])\<rparr>)"
  by code_simp

theorem handleFormat_hash_field_witness:
  "handleFormat_hash
     (frames_bytes [(EVENT_START_FMT, map of_char ''x=%d pid=%p''),
                    (EVENT_TIMESTAMP, [5, 0, 0, 0, 0, 0, 0, 0, 7, 0, 0, 0, 0, 0, 0, 0]),
                    (EVENT_HASH, enc_hash 0xDEADBEEFCAFEBABE), (EVENT_END_FMT, [])]) 0
   = Inr ''CAFE-47806 ''"
proof -
  have h1: "length (map of_char ''x=%d pid=%p'' :: byte list) \<le> kMaxLength"
    by (simp add: kMaxLength_def)
  have h2: "length ([5, 0, 0, 0, 0, 0, 0, 0, 7, 0, 0, 0, 0, 0, 0, 0] :: byte list) \<le> kMaxLength"
    by (simp add: kMaxLength_def)
  have "handleFormat_hash
          ([] @ frames_bytes ((EVENT_START_FMT, map of_char ''x=%d pid=%p'')
              # (EVENT_TIMESTAMP, [5, 0, 0, 0, 0, 0, 0, 0, 7, 0, 0, 0, 0, 0, 0, 0])
              # (EVENT_HASH, enc_hash 0xDEADBEEFCAFEBABE) # [(EVENT_END_FMT, [])]) @ [])
          (int (length ([] :: byte list))) = Inr ''CAFE-47806 ''"
    unfolding handleFormat_hash_field [OF h1 h2] example_hash_field ..
  then show ?thesis by simp
qed

theorem handleFormat_hash_counterexample:
  "(case logFormat ucast lp64 (Writer_new True 1234 ''audio'') (Some \<lparr>tv_sec = 5, tv_nsec = 7\<rparr>)
          ''x=%d pid=%p'' 0xDEADBEEFCAFEBABE [VaInt 7] of
      Inl x \<Rightarrow> Inl x
    | Inr w \<Rightarrow> handleFormat_hash (data_bytes (mFifoWriter w)) 0) = Inr ''CAFE-47806 ''
   \<and> ''CAFE-47806 '' \<noteq> ''DEAD-51390 ''"
proof -
  let ?fs = "(EVENT_START_FMT, map of_char ''x=%d pid=%p'')
              # (EVENT_TIMESTAMP, [5, 0, 0, 0, 0, 0, 0, 0, 7, 0, 0, 0, 0, 0, 0, 0])
              # (EVENT_HASH, enc_hash 0xDEADBEEFCAFEBABE)
              # [(EVENT_INTEGER, [7, 0, 0, 0]), (EVENT_PID, [0xD2, 4, 0, 0] @ map of_char ''audio''),
                 (EVENT_END_FMT, [])]"
  have h1: "length (map of_char ''x=%d pid=%p'' :: byte list) \<le> kMaxLength"
    by (simp add: kMaxLength_def)
  have h2: "length ([5, 0, 0, 0, 0, 0, 0, 0, 7, 0, 0, 0, 0, 0, 0, 0] :: byte list) \<le> kMaxLength"
    by (simp add: kMaxLength_def)
  have fh: "FormatEntry_hash ([] @ frames_bytes ?fs @ []) (int (length ([] :: byte list)))
            = Inr 0xDEADBEEFCAFEBABE"
    by (rule FormatEntry_hash_frames [OF h1 h2])
  then have fh': "FormatEntry_hash (frames_bytes ?fs) 0 = Inr 0xDEADBEEFCAFEBABE"
    by simp
  have x: "printf_X 4 (unat (0xDEADBEEFCAFEBABE :: 64 word) div 65536 mod 65536) = ''CAFE''"
    by (simp add: printf_X_4 hex_digit_def)
  have d: "printf_d (int (unat (0xDEADBEEFCAFEBABE :: 64 word) mod 65536)) = ''47806''"
    by (simp add: printf_d_def digits_step digits_0 hex_digit_def)
  have "handleFormat_hash (frames_bytes ?fs) 0 = Inr ''CAFE-47806 ''"
    unfolding handleFormat_hash_def fh' sum.case Let_def hash_hi_bits hash_lo_bits x d
    by simp
  then show ?thesis
    unfolding example_record by simp
qed

definition entry_copyWithAuthor ::
  "abi \<Rightarrow> byte list \<Rightarrow> byte list \<Rightarrow> int \<Rightarrow> byte list \<Rightarrow> 32 word \<Rightarrow> error + (int \<times> byte list)" where
  "entry_copyWithAuthor a stack buf ptr dst author =
     (case buildEntry buf ptr of
        Inl x \<Rightarrow> Inl x
      | Inr None \<Rightarrow> Inl NullDeref
      | Inr (Some FormatKind) \<Rightarrow> FormatEntry_copyWithAuthor buf ptr dst author
      | Inr (Some HistogramKind) \<Rightarrow> HistogramEntry_copyWithAuthor a stack buf ptr dst author)"



lemma copy_rest_ge: "copy_rest buf it dst = Inr (it', dst') \<Longrightarrow> it < it'"
proof (induction buf it dst rule: copy_rest.induct)
  case (1 buf it dst)
  from "1.prems" obtain i1 ty where i1: "it_inc buf it = Inr i1" and ty: "it_type buf i1 = Inr ty"
    by (subst (asm) copy_rest.simps) (auto split: sum.splits)
  have lt: "it < i1" using it_inc_gt [OF i1] by simp
  show ?case
  proof (cases "ty \<noteq> EVENT_END_FMT")
    case True
    from "1.prems" i1 ty True obtain d1 where d1: "copyTo buf i1 dst = Inr d1"
      and r: "copy_rest buf i1 d1 = Inr (it', dst')"
      by (subst (asm) copy_rest.simps) (auto split: sum.splits)
    from "1.IH" [OF i1 ty True d1 r] lt show ?thesis by simp
  next
    case False
    then have "it' = i1" using "1.prems" i1 ty by (subst (asm) copy_rest.simps) simp
    then show ?thesis using lt by simp
  qed
qed

lemma entry_copyWithAuthor_advances:
  assumes "entry_copyWithAuthor a stack buf ptr dst author = Inr (ptr', dst')"
  shows "ptr < ptr' \<and> ptr < int (length buf)"
proof -
  from assms consider
    (f) "FormatEntry_copyWithAuthor buf ptr dst author = Inr (ptr', dst')"
    | (h) "HistogramEntry_copyWithAuthor a stack buf ptr dst author = Inr (ptr', dst')"
    by (auto simp: entry_copyWithAuthor_def split: sum.splits option.splits entry_kind.splits)
  then show ?thesis
  proof cases
    case f
    then obtain i1 i2 i3 d3 d4 where "it_inc buf ptr = Inr i1" "it_inc buf i1 = Inr i2"
      "copy_rest buf i2 d3 = Inr (i3, d4)" "it_inc buf i3 = Inr ptr'"
      by (auto simp: FormatEntry_copyWithAuthor_def split: sum.splits prod.splits)
    then show ?thesis
      using it_inc_gt [of buf ptr i1] it_inc_gt [of buf i1 i2] copy_rest_ge [of buf i2 d3 i3 d4]
        it_inc_gt [of buf i3 ptr']
      by simp
  next
    case h
    then have "it_inc buf ptr = Inr ptr'"
      by (auto simp: HistogramEntry_copyWithAuthor_def Let_def split: sum.splits)
    then show ?thesis using it_inc_gt [of buf ptr ptr'] by simp
  qed
qed

text \<open>
  The main loop of \<open>Merger::merge\<close>: \<open>snapshots\<close> and \<open>offsets\<close> are the two vectors,
  \<open>timestamps\<close> the queue and \<open>dst\<close> what \<open>mFifoWriter\<close> has been given. \<open>stack\<close> is what the
  stack buffer of \<open>HistogramEntry::copyWithAuthor\<close> holds on entry. Every round copies a
  record and moves one offset forward inside its snapshot's data.
\<close>

function merge_loop ::
  "abi \<Rightarrow> byte list \<Rightarrow> Snapshot list \<Rightarrow> int list \<Rightarrow> MergeItem list \<Rightarrow> byte list \<Rightarrow> error + byte list" where
  "merge_loop a stack snapshots offsets timestamps dst =
     (if timestamps = [] then Inr dst
      else
        (let index = item_index (pq_top timestamps) in
         if \<not> (index < length snapshots \<and> index < length offsets) then Inl OutOfBounds
         else
           (case entry_copyWithAuthor a stack (snap_mData (snapshots ! index)) (offsets ! index)
                   dst (of_nat index) of
              Inl x \<Rightarrow> Inl x
            | Inr (off, dst') \<Rightarrow>
                if off \<noteq> mEnd (snapshots ! index) then
                  (case entry_timestamp a (snap_mData (snapshots ! index)) off of
                     Inl x \<Rightarrow> Inl x
                   | Inr t \<Rightarrow>
                       merge_loop a stack snapshots (offsets[index := off])
                         (pq_emplace (pq_pop timestamps) t index) dst')
                else
                  merge_loop a stack snapshots (offsets[index := off]) (pq_pop timestamps) dst')))"
  by pat_completeness auto
termination
proof (relation "measure (\<lambda>(a, stack, snapshots, offsets, timestamps, dst).
         \<Sum>i<length offsets. nat (int (length (snap_mData (snapshots ! i))) - offsets ! i))")
  show "wf (measure (\<lambda>(a :: abi, stack :: byte list, snapshots :: Snapshot list, offsets :: int list,
                       timestamps :: MergeItem list, dst :: byte list).
         \<Sum>i<length offsets. nat (int (length (snap_mData (snapshots ! i))) - offsets ! i)))"
    by simp
next
  fix a :: abi and stack dst dst' :: "byte list" and snapshots :: "Snapshot list"
    and offsets :: "int list" and timestamps :: "MergeItem list" and index :: nat and off :: int
    and x :: "int \<times> byte list" and t :: timespec
  assume idx: "\<not> \<not> (index < length snapshots \<and> index < length offsets)"
    and cp: "entry_copyWithAuthor a stack (snap_mData (snapshots ! index)) (offsets ! index) dst
               (of_nat index) = Inr x"
    and x: "(off, dst') = x"
  let ?f = "\<lambda>offs i. nat (int (length (snap_mData (snapshots ! i))) - offs ! i)"
  have adv: "offsets ! index < off \<and> offsets ! index < int (length (snap_mData (snapshots ! index)))"
    using entry_copyWithAuthor_advances [of a stack _ _ dst _ off dst'] cp x by simp
  have "(\<Sum>i<length offsets. ?f (offsets[index := off]) i) < (\<Sum>i<length offsets. ?f offsets i)"
  proof (rule sum_strict_mono_ex1)
    show "finite {..<length offsets}" by simp
    show "\<forall>i\<in>{..<length offsets}. ?f (offsets[index := off]) i \<le> ?f offsets i"
    proof
      fix i assume "i \<in> {..<length offsets}"
      show "?f (offsets[index := off]) i \<le> ?f offsets i"
      proof (cases "i = index")
        case True
        have "nat (int (length (snap_mData (snapshots ! index))) - off)
              \<le> nat (int (length (snap_mData (snapshots ! index))) - offsets ! index)"
          using adv by arith
        then show ?thesis using True idx by simp
      next
        case False
        then show ?thesis by simp
      qed
    qed
    show "\<exists>i\<in>{..<length offsets}. ?f (offsets[index := off]) i < ?f offsets i"
    proof (rule bexI [of _ index])
      have "nat (int (length (snap_mData (snapshots ! index))) - off)
            < nat (int (length (snap_mData (snapshots ! index))) - offsets ! index)"
        using adv by arith
      then show "?f (offsets[index := off]) index < ?f offsets index"
        using idx by simp
      show "index \<in> {..<length offsets}" using idx by simp
    qed
  qed
  then show "((a, stack, snapshots, offsets[index := off], pq_emplace (pq_pop timestamps) t index, dst'),
              (a, stack, snapshots, offsets, timestamps, dst))
             \<in> measure (\<lambda>(a, stack, snapshots, offsets, timestamps, dst).
                  \<Sum>i<length offsets. nat (int (length (snap_mData (snapshots ! i))) - offsets ! i))"
    and "((a, stack, snapshots, offsets[index := off], pq_pop timestamps, dst'),
              (a, stack, snapshots, offsets, timestamps, dst))
             \<in> measure (\<lambda>(a, stack, snapshots, offsets, timestamps, dst).
                  \<Sum>i<length offsets. nat (int (length (snap_mData (snapshots ! i))) - offsets ! i))"
    by simp_all
qed

declare merge_loop.simps [simp del]

text \<open>\<open>Merger::merge\<close> from the snapshots on: fill the queue, then merge.\<close>

definition merge_snapshots ::
  "abi \<Rightarrow> byte list \<Rightarrow> Snapshot list \<Rightarrow> byte list \<Rightarrow> error + byte list" where
  "merge_snapshots a stack snapshots dst =
     (case init_timestamps a snapshots 0 [] of
        Inl x \<Rightarrow> Inl x
      | Inr timestamps \<Rightarrow> merge_loop a stack snapshots (map mBegin snapshots) timestamps dst)"

lemma length_record_bytes: "3 \<le> length (record_bytes r)"
  by (cases r) simp_all

lemma abi_ok_sizes:
  assumes "abi_ok a"
  shows "sizeof_timespec a \<le> kMaxLength" "sizeof_HistTsEntry a \<le> kMaxLength"
    "sizeof_HistTsEntry a = sizeof_hash + sizeof_timespec a"
  using assms by (simp_all add: abi_ok_def sizeof_timespec_def)

lemma buildEntry_frame:
  "buildEntry (pre @ frame_bytes ev pl @ post) (int (length pre))
   = (if ev = EVENT_START_FMT then Inr (Some FormatKind)
      else if ev = EVENT_HISTOGRAM_FLUSH \<or> ev = EVENT_HISTOGRAM_ENTRY_TS then Inr (Some HistogramKind)
      else Inr None)"
  by (simp add: buildEntry_def it_type_frame)

lemma entry_timestamp_record:
  assumes ok: "abi_ok a" and wf: "wf_record a r"
  shows "entry_timestamp a (pre @ record_bytes r @ post) (int (length pre)) = Inr (record_ts a r)"
proof (cases r)
  case (FormatRecord fmt t h args)
  let ?f1 = "frame_bytes EVENT_START_FMT fmt"
  let ?rest = "frames_bytes ((EVENT_HASH, h) # args @ [(EVENT_END_FMT, [])]) @ post"
  let ?buf = "pre @ ?f1 @ frame_bytes EVENT_TIMESTAMP t @ ?rest"
  have buf: "pre @ record_bytes r @ post = ?buf" using FormatRecord by simp
  have b: "length fmt \<le> kMaxLength" "length t = sizeof_timespec a"
    using wf FormatRecord by simp_all
  have be: "buildEntry ?buf (int (length pre)) = Inr (Some FormatKind)"
    by (simp add: buildEntry_frame)
  define i1 where "i1 = int (length pre) + int (length fmt) + 3"
  have inc: "it_inc ?buf (int (length pre)) = Inr i1"
    unfolding i1_def by (rule it_inc_frame [OF b(1)])
  have "rd_range ((pre @ ?f1 @ [EVENT_TIMESTAMP, of_nat (length t)]) @ t
                  @ ([of_nat (length t)] @ ?rest))
          (int (length (pre @ ?f1 @ [EVENT_TIMESTAMP, of_nat (length t)]))) (length t) = Inr t"
    by (rule rd_range_mid)
  then have r: "rd_range ?buf (i1 + off_data) (sizeof_timespec a) = Inr t"
    using b(2) by (simp add: i1_def frame_bytes_def off_data_def algebra_simps)
  have "entry_timestamp a ?buf (int (length pre)) = Inr (dec_timespec a t)"
    by (simp only: entry_timestamp_def be FormatEntry_timestamp_def inc r sum.case option.case
        entry_kind.case)
  then show ?thesis
    unfolding buf using FormatRecord by simp
next
  case (HistogramRecord ty pl)
  let ?buf = "pre @ frame_bytes ty pl @ post"
  have buf: "pre @ record_bytes r @ post = ?buf" using HistogramRecord by simp
  have b: "ty = EVENT_HISTOGRAM_ENTRY_TS \<or> ty = EVENT_HISTOGRAM_FLUSH"
    "length pl = sizeof_hash + sizeof_timespec a"
    using wf HistogramRecord abi_ok_sizes(3) [OF ok] by simp_all
  have be: "buildEntry ?buf (int (length pre)) = Inr (Some HistogramKind)"
    using b(1) by (auto simp: buildEntry_frame event_defs)
  have r: "rd_range ?buf (int (length pre) + off_data + int sizeof_hash) (sizeof_timespec a)
           = Inr (drop sizeof_hash pl)"
    using b(2) by (simp add: rd_range_def frame_bytes_def off_data_def nat_add_distrib)
  have "entry_timestamp a ?buf (int (length pre)) = Inr (dec_timespec a (drop sizeof_hash pl))"
    by (simp only: entry_timestamp_def be HistogramEntry_timestamp_def r sum.case option.case
        entry_kind.case)
  then show ?thesis
    unfolding buf using HistogramRecord by simp
qed

lemma entry_copyWithAuthor_record:
  assumes ok: "abi_ok a" and st: "length stack = kOverhead + sizeof_HistTsEntryWithAuthor a"
    and wf: "wf_record a r"
  shows "entry_copyWithAuthor a stack (pre @ record_bytes r @ post) (int (length pre)) dst i
         = Inr (int (length pre) + int (length (record_bytes r)), dst @ record_with_author a stack i r)"
proof (cases r)
  case (FormatRecord fmt t h args)
  have b: "length fmt \<le> kMaxLength" "length t \<le> kMaxLength" "length h \<le> kMaxLength"
    "\<forall>(ev, pl) \<in> set args. length pl \<le> kMaxLength \<and> ev \<noteq> EVENT_END_FMT"
    using wf FormatRecord abi_ok_sizes(1) [OF ok] by simp_all
  have e: "length ([] :: byte list) \<le> kMaxLength" by simp
  have be: "buildEntry (pre @ record_bytes r @ post) (int (length pre)) = Inr (Some FormatKind)"
    using FormatRecord buildEntry_frame [of pre EVENT_START_FMT fmt] by simp
  have "entry_copyWithAuthor a stack (pre @ record_bytes r @ post) (int (length pre)) dst i
        = FormatEntry_copyWithAuthor (pre @ record_bytes r @ post) (int (length pre)) dst i"
    by (simp only: entry_copyWithAuthor_def be sum.case option.case entry_kind.case)
  then show ?thesis
    using FormatEntry_copyWithAuthor_frames [OF b(1-3) e b(4), of pre EVENT_START_FMT
        EVENT_TIMESTAMP EVENT_HASH post dst i] FormatRecord
    by simp
next
  case (HistogramRecord ty pl)
  have b: "ty = EVENT_HISTOGRAM_ENTRY_TS \<or> ty = EVENT_HISTOGRAM_FLUSH"
    "length pl = sizeof_HistTsEntry a"
    using wf HistogramRecord by simp_all
  have be: "buildEntry (pre @ record_bytes r @ post) (int (length pre)) = Inr (Some HistogramKind)"
    using b(1) HistogramRecord by (auto simp: buildEntry_frame event_defs)
  have "entry_copyWithAuthor a stack (pre @ record_bytes r @ post) (int (length pre)) dst i
        = HistogramEntry_copyWithAuthor a stack (pre @ record_bytes r @ post) (int (length pre)) dst i"
    by (simp only: entry_copyWithAuthor_def be sum.case option.case entry_kind.case)
  then show ?thesis
    using HistogramEntry_copyWithAuthor_frame [OF ok b(2) st, of pre ty post dst i] HistogramRecord
    by (simp add: algebra_simps)
qed

lemma item_gt_irrefl: "\<not> item_gt m m"
  by (simp add: item_gt_def timespec_gt_def)

lemma item_le_total: "item_gt m x \<Longrightarrow> \<not> item_gt x m"
  by (auto simp: item_gt_def timespec_gt_def)

lemma item_le_trans: "\<not> item_gt a b \<Longrightarrow> \<not> item_gt b c \<Longrightarrow> \<not> item_gt a c"
  by (auto simp: item_gt_def timespec_gt_def)

lemma foldl_min_item:
  "foldl (\<lambda>m x. if item_gt m x then x else m) m xs \<in> set (m # xs) \<and>
   (\<forall>y \<in> set (m # xs). \<not> item_gt (foldl (\<lambda>m x. if item_gt m x then x else m) m xs) y)"
proof (induction xs arbitrary: m)
  case Nil
  then show ?case by (simp add: item_gt_irrefl)
next
  case (Cons x xs)
  let ?m' = "if item_gt m x then x else m"
  let ?r = "foldl (\<lambda>m x. if item_gt m x then x else m) ?m' xs"
  have ih: "?r \<in> set (?m' # xs)" "\<forall>y \<in> set (?m' # xs). \<not> item_gt ?r y"
    using Cons.IH [of ?m'] by simp_all
  have m': "\<not> item_gt ?m' m" "\<not> item_gt ?m' x"
    by (auto simp: item_gt_irrefl item_le_total)
  have r: "\<not> item_gt ?r ?m'" using ih(2) by simp
  have "\<not> item_gt ?r m" "\<not> item_gt ?r x"
    using item_le_trans [OF r m'(1)] item_le_trans [OF r m'(2)] by simp_all
  moreover have "?r \<in> set (m # x # xs)" using ih(1) by (auto split: if_splits)
  ultimately show ?case using ih(2) by simp
qed

lemma pq_top_in: "q \<noteq> [] \<Longrightarrow> pq_top q \<in> set q"
  using foldl_min_item [of "hd q" "tl q"] by (cases q) (simp_all add: pq_top_def)

lemma pq_top_min: "x \<in> set q \<Longrightarrow> \<not> item_gt (pq_top q) x"
  using foldl_min_item [of "hd q" "tl q"] by (cases q) (auto simp: pq_top_def)

lemma snapshot_split:
  assumes "snapshot_of a s recs"
  obtains pre post where "snap_mData s = pre @ concat (map record_bytes recs) @ post"
    and "int (length pre) = mBegin s"
proof
  let ?B = "concat (map record_bytes recs)"
  let ?n = "nat (mBegin s)"
  from assms have b: "0 \<le> mBegin s" "mBegin s + int (length ?B) \<le> int (length (snap_mData s))"
    and t: "take (length ?B) (drop ?n (snap_mData s)) = ?B"
    by (simp_all add: snapshot_of_def)
  have "snap_mData s = take ?n (snap_mData s) @ drop ?n (snap_mData s)"
    by (rule append_take_drop_id [symmetric])
  also have "drop ?n (snap_mData s)
             = take (length ?B) (drop ?n (snap_mData s)) @ drop (length ?B) (drop ?n (snap_mData s))"
    by (rule append_take_drop_id [symmetric])
  finally show "snap_mData s
                = take ?n (snap_mData s) @ ?B @ drop (length ?B) (drop ?n (snap_mData s))"
    unfolding t .
  show "int (length (take ?n (snap_mData s))) = mBegin s" using b by simp
qed

lemma concat_record_bytes_Nil: "concat (map record_bytes rs) = [] \<longleftrightarrow> rs = []"
proof (cases rs)
  case Nil
  then show ?thesis by simp
next
  case (Cons r rest)
  then show ?thesis using length_record_bytes [of r] by auto
qed

lemma merge_loop_step:
  assumes ok: "abi_ok a" and st: "length stack = kOverhead + sizeof_HistTsEntryWithAuthor a"
    and q: "q \<noteq> []" and i: "item_index (pq_top q) = i"
    and len: "i < length snaps" "i < length offsets"
    and sn: "snapshot_of a (snaps ! i) (dn @ r # rest)"
    and off: "offsets ! i = mBegin (snaps ! i) + int (length (concat (map record_bytes dn)))"
  shows "merge_loop a stack snaps offsets q dst
         = merge_loop a stack snaps (offsets[i := offsets ! i + int (length (record_bytes r))])
             (if rest = [] then pq_pop q else pq_emplace (pq_pop q) (record_ts a (hd rest)) i)
             (dst @ record_with_author a stack (of_nat i) r)"
proof -
  let ?D = "concat (map record_bytes dn)" and ?R = "concat (map record_bytes rest)"
  let ?data = "snap_mData (snaps ! i)"
  from snapshot_split [OF sn] obtain pre post
    where data: "?data = pre @ concat (map record_bytes (dn @ r # rest)) @ post"
      and pre: "int (length pre) = mBegin (snaps ! i)"
    by blast
  have wf: "wf_record a r" "\<forall>x \<in> set rest. wf_record a x"
    using sn by (simp_all add: snapshot_of_def)
  have data': "?data = (pre @ ?D) @ record_bytes r @ (?R @ post)"
    using data by simp
  have off': "offsets ! i = int (length (pre @ ?D))"
    using off pre by simp
  define o' where "o' = offsets ! i + int (length (record_bytes r))"
  have cp: "entry_copyWithAuthor a stack ?data (offsets ! i) dst (of_nat i)
            = Inr (o', dst @ record_with_author a stack (of_nat i) r)"
    unfolding data' off' o'_def
    using entry_copyWithAuthor_record [OF ok st wf(1), of "pre @ ?D" "?R @ post" dst "of_nat i"]
    by simp
  have e: "mEnd (snaps ! i) = o' + int (length ?R)"
    using sn off by (simp add: snapshot_of_def o'_def)
  have ne: "o' \<noteq> mEnd (snaps ! i) \<longleftrightarrow> rest \<noteq> []"
    using e concat_record_bytes_Nil [of rest] by auto
  show ?thesis
  proof (cases rest)
    case Nil
    then show ?thesis
      using q i len cp ne
      by (subst merge_loop.simps) (simp add: Let_def o'_def)
  next
    case (Cons r' rest')
    have wf': "wf_record a r'" using wf(2) Cons by simp
    have data'': "?data = (pre @ ?D @ record_bytes r) @ record_bytes r'
                          @ (concat (map record_bytes rest') @ post)"
      using data' Cons by simp
    have o'': "o' = int (length (pre @ ?D @ record_bytes r))"
      using off' by (simp add: o'_def)
    have ts: "entry_timestamp a ?data o' = Inr (record_ts a r')"
      unfolding data'' o''
      by (rule entry_timestamp_record [OF ok wf'])
    show ?thesis
      using q i len cp ne ts Cons
      by (subst merge_loop.simps) (simp add: Let_def o'_def)
  qed
qed


lemma sum_list_length_update:
  assumes "i < length rems" "rems ! i = r # rest"
  shows "sum_list (map length (rems[i := rest])) < sum_list (map length rems)"
proof -
  let ?xs = "map length rems"
  have i: "i < length ?xs" using assms by simp
  have "?xs ! i \<in> set ?xs" using i by (rule nth_mem)
  then have m: "?xs ! i \<le> sum_list ?xs"
    by (auto intro: member_le_sum_list)
  have "sum_list (?xs[i := length rest]) = sum_list ?xs + length rest - ?xs ! i"
    by (rule sum_list_update [OF i])
  moreover have "?xs ! i = Suc (length rest)" using assms by simp
  ultimately show ?thesis using m by (simp add: map_update)
qed

lemma timespec_le_head:
  assumes "sorted_wrt (\<lambda>r s. \<not> timespec_gt (record_ts a r) (record_ts a s)) rs" "s \<in> set rs"
  shows "\<not> timespec_gt (record_ts a (hd rs)) (record_ts a s)"
  using assms by (cases rs) (auto simp: timespec_gt_def)

lemma merged_before_top:
  assumes "\<not> item_gt tp m" "item_ts tp = record_ts a r" "item_index tp = i"
    "item_ts m = record_ts a h" "item_index m = j"
    "\<not> timespec_gt (record_ts a h) (record_ts a s)"
  shows "merged_before a (i, r) (j, s)"
  using assms by (auto simp: merged_before_def item_gt_def timespec_gt_def)

lemma merge_loop_sorted:
  assumes ok: "abi_ok a" and st: "length stack = kOverhead + sizeof_HistTsEntryWithAuthor a"
    and "length snaps = length rems" "length offsets = length rems"
    and "\<forall>i<length rems. \<exists>dn. snapshot_of a (snaps ! i) (dn @ rems ! i) \<and>
           offsets ! i = mBegin (snaps ! i) + int (length (concat (map record_bytes dn)))"
    and "\<forall>i<length rems.
           sorted_wrt (\<lambda>r s. \<not> timespec_gt (record_ts a r) (record_ts a s)) (rems ! i)"
    and "distinct (map item_index q)"
    and "\<forall>m\<in>set q. item_index m < length rems \<and> rems ! item_index m \<noteq> [] \<and>
           item_ts m = record_ts a (hd (rems ! item_index m))"
    and "\<forall>i<length rems. rems ! i \<noteq> [] \<longrightarrow> i \<in> item_index ` set q"
  shows "\<exists>out. merge_loop a stack snaps offsets q dst
                 = Inr (dst @ concat (map (\<lambda>(i, r). record_with_author a stack (of_nat i) r) out)) \<and>
               sorted_wrt (merged_before a) out \<and>
               (\<forall>i<length rems. map snd (filter (\<lambda>x. fst x = i) out) = rems ! i) \<and>
               (\<forall>x\<in>set out. fst x < length rems)"
  using assms(3-)
proof (induction "sum_list (map length rems)" arbitrary: rems offsets q dst rule: less_induct)
  case less
  note ls = less.prems(1) and lo = less.prems(2) and pos = less.prems(3)
    and srt = less.prems(4) and dist = less.prems(5) and qs = less.prems(6)
    and qc = less.prems(7)
  show ?case
  proof (cases "q = []")
    case True
    have "\<forall>i<length rems. rems ! i = []" using qc True by auto
    moreover have "merge_loop a stack snaps offsets q dst = Inr dst"
      using True by (subst merge_loop.simps) simp
    ultimately show ?thesis by (intro exI [of _ "[]"]) simp
  next
    case False
    define tp where "tp = pq_top q"
    define i where "i = item_index tp"
    have tp_in: "tp \<in> set q" using pq_top_in [OF False] by (simp add: tp_def)
    have il: "i < length rems" and ne: "rems ! i \<noteq> []"
      and tts: "item_ts tp = record_ts a (hd (rems ! i))"
      using qs tp_in by (auto simp: i_def)
    then obtain r rest where ri: "rems ! i = r # rest" by (cases "rems ! i") auto
    from pos il ri obtain dn where sn: "snapshot_of a (snaps ! i) (dn @ r # rest)"
      and off: "offsets ! i = mBegin (snaps ! i) + int (length (concat (map record_bytes dn)))"
      by auto
    define rems' where "rems' = rems[i := rest]"
    define offsets' where "offsets' = offsets[i := offsets ! i + int (length (record_bytes r))]"
    define q' where "q' = (if rest = [] then pq_pop q
                           else pq_emplace (pq_pop q) (record_ts a (hd rest)) i)"
    define dst' where "dst' = dst @ record_with_author a stack (of_nat i) r"
    have step: "merge_loop a stack snaps offsets q dst = merge_loop a stack snaps offsets' q' dst'"
      unfolding offsets'_def q'_def dst'_def
      by (rule merge_loop_step [OF ok st False _ _ _ sn off])
         (use il ls lo in \<open>simp_all add: i_def tp_def\<close>)
    have pop: "set (pq_pop q) = set q - {tp}" "distinct (map item_index (pq_pop q))"
      and popi: "\<forall>m\<in>set (pq_pop q). item_index m \<noteq> i"
    proof -
      have dq: "distinct q" using dist by (simp add: distinct_map)
      show s: "set (pq_pop q) = set q - {tp}"
        using dq by (simp add: pq_pop_def tp_def [symmetric])
      show "distinct (map item_index (pq_pop q))"
        unfolding pq_pop_def using dist
        by (auto simp: distinct_map inj_on_def set_remove1_eq [OF dq])
      show "\<forall>m\<in>set (pq_pop q). item_index m \<noteq> i"
      proof
        fix m assume "m \<in> set (pq_pop q)"
        then have "m \<in> set q" "m \<noteq> tp" using s by auto
        then show "item_index m \<noteq> i"
          using dist tp_in by (auto simp: i_def distinct_map inj_on_def)
      qed
    qed
    have q'set: "set q' = (set q - {tp}) \<union> (if rest = [] then {} else {MergeItem (record_ts a (hd rest)) i})"
      using pop(1) by (simp add: q'_def pq_emplace_def)
    have lt: "sum_list (map length rems') < sum_list (map length rems)"
      unfolding rems'_def by (rule sum_list_length_update [OF il ri])
    have len': "length rems' = length rems" by (simp add: rems'_def)
    have p1: "length snaps = length rems'" using ls len' by simp
    have p2: "length offsets' = length rems'" using lo len' by (simp add: offsets'_def)
    have p3: "\<forall>j<length rems'. \<exists>dn. snapshot_of a (snaps ! j) (dn @ rems' ! j) \<and>
                offsets' ! j = mBegin (snaps ! j) + int (length (concat (map record_bytes dn)))"
    proof (intro allI impI)
      fix j assume j: "j < length rems'"
      show "\<exists>dn. snapshot_of a (snaps ! j) (dn @ rems' ! j) \<and>
                offsets' ! j = mBegin (snaps ! j) + int (length (concat (map record_bytes dn)))"
      proof (cases "j = i")
        case True
        have "snapshot_of a (snaps ! i) ((dn @ [r]) @ rems' ! i)"
          using sn il by (simp add: rems'_def)
        moreover have "offsets' ! i = mBegin (snaps ! i)
                         + int (length (concat (map record_bytes (dn @ [r]))))"
          using off il lo by (simp add: offsets'_def)
        ultimately show ?thesis unfolding True by blast
      next
        case False
        then show ?thesis using pos j len' by (simp add: rems'_def offsets'_def)
      qed
    qed
    have p4: "\<forall>j<length rems'.
                sorted_wrt (\<lambda>r s. \<not> timespec_gt (record_ts a r) (record_ts a s)) (rems' ! j)"
    proof (intro allI impI)
      fix j assume j: "j < length rems'"
      show "sorted_wrt (\<lambda>r s. \<not> timespec_gt (record_ts a r) (record_ts a s)) (rems' ! j)"
      proof (cases "j = i")
        case True
        have "sorted_wrt (\<lambda>r s. \<not> timespec_gt (record_ts a r) (record_ts a s)) (r # rest)"
          using srt il ri by metis
        then show ?thesis using True il by (simp add: rems'_def)
      next
        case False
        then show ?thesis using srt j len' by (simp add: rems'_def)
      qed
    qed
    have p5: "distinct (map item_index q')"
      using pop(2) popi by (auto simp: q'_def pq_emplace_def)
    have p6: "\<forall>m\<in>set q'. item_index m < length rems' \<and> rems' ! item_index m \<noteq> [] \<and>
                item_ts m = record_ts a (hd (rems' ! item_index m))"
    proof
      fix m assume m: "m \<in> set q'"
      show "item_index m < length rems' \<and> rems' ! item_index m \<noteq> [] \<and>
            item_ts m = record_ts a (hd (rems' ! item_index m))"
      proof (cases "m \<in> set (pq_pop q)")
        case True
        then have "item_index m \<noteq> i" "m \<in> set q" using popi pop(1) by auto
        then show ?thesis using qs by (simp add: rems'_def)
      next
        case False
        then have "rest \<noteq> []" "m = MergeItem (record_ts a (hd rest)) i"
          using m q'set pop(1) by (auto split: if_splits)
        then show ?thesis using il by (simp add: rems'_def)
      qed
    qed
    have p7: "\<forall>j<length rems'. rems' ! j \<noteq> [] \<longrightarrow> j \<in> item_index ` set q'"
    proof (intro allI impI)
      fix j assume j: "j < length rems'" and n: "rems' ! j \<noteq> []"
      show "j \<in> item_index ` set q'"
      proof (cases "j = i")
        case True
        then have "rest \<noteq> []" using n il by (simp add: rems'_def)
        then have "MergeItem (record_ts a (hd rest)) i \<in> set q'" using q'set by simp
        then show ?thesis unfolding True by force
      next
        case False
        then have "rems ! j \<noteq> []" using n by (simp add: rems'_def)
        then obtain m where "m \<in> set q" "item_index m = j" using qc j len' by auto
        moreover from this False have "m \<noteq> tp" by (auto simp: i_def)
        ultimately have "m \<in> set q'" using q'set by simp
        then show ?thesis using \<open>item_index m = j\<close> by force
      qed
    qed
    from less.hyps [OF lt p1 p2 p3 p4 p5 p6 p7, of dst']
    obtain out where
      o1: "merge_loop a stack snaps offsets' q' dst'
           = Inr (dst' @ concat (map (\<lambda>(i, r). record_with_author a stack (of_nat i) r) out))"
      and o2: "sorted_wrt (merged_before a) out"
      and o3: "\<forall>j<length rems'. map snd (filter (\<lambda>x. fst x = j) out) = rems' ! j"
      and o4: "\<forall>x\<in>set out. fst x < length rems'"
      by blast
    have before: "merged_before a (i, r) y" if y: "y \<in> set out" for y
    proof -
      obtain j s where ys: "y = (j, s)" by (cases y)
      have jl: "j < length rems" using o4 y ys len' by auto
      have "s \<in> set (map snd (filter (\<lambda>x. fst x = j) out))" using y ys by force
      then have sj: "s \<in> set (rems' ! j)" using o3 jl len' by simp
      show ?thesis
      proof (cases "j = i")
        case True
        then have "s \<in> set rest" using sj il by (simp add: rems'_def)
        moreover have "sorted_wrt (\<lambda>r s. \<not> timespec_gt (record_ts a r) (record_ts a s)) (r # rest)"
          using srt il ri by metis
        ultimately have "\<not> timespec_gt (record_ts a r) (record_ts a s)" by simp
        then show ?thesis unfolding ys True by (simp add: merged_before_def)
      next
        case False
        then have sj': "s \<in> set (rems ! j)" using sj by (simp add: rems'_def)
        then have "rems ! j \<noteq> []" by auto
        then obtain m where m: "m \<in> set q" "item_index m = j" using qc jl by auto
        have mts: "item_ts m = record_ts a (hd (rems ! j))" using qs m by auto
        have hs: "\<not> timespec_gt (record_ts a (hd (rems ! j))) (record_ts a s)"
          by (rule timespec_le_head [OF _ sj']) (use srt jl in simp)
        have "\<not> item_gt tp m" unfolding tp_def by (rule pq_top_min [OF m(1)])
        then show ?thesis
          unfolding ys
          by (rule merged_before_top [OF _ _ _ mts m(2) hs]) (use tts ri in \<open>simp_all add: i_def\<close>)
      qed
    qed
    let ?out = "(i, r) # out"
    have "merge_loop a stack snaps offsets q dst
          = Inr (dst @ concat (map (\<lambda>(i, r). record_with_author a stack (of_nat i) r) ?out))"
      using step o1 by (simp add: dst'_def)
    moreover have "sorted_wrt (merged_before a) ?out" using o2 before by simp
    moreover have "\<forall>j<length rems. map snd (filter (\<lambda>x. fst x = j) ?out) = rems ! j"
    proof (intro allI impI)
      fix j assume j: "j < length rems"
      show "map snd (filter (\<lambda>x. fst x = j) ?out) = rems ! j"
        using o3 j len' ri il by (cases "j = i") (simp_all add: rems'_def)
    qed
    moreover have "\<forall>x\<in>set ?out. fst x < length rems" using o4 il len' by simp
    ultimately show ?thesis by blast
  qed
qed

lemma snapshot_nonempty: "snapshot_of a s rs \<Longrightarrow> mBegin s \<noteq> mEnd s \<longleftrightarrow> rs \<noteq> []"
  using concat_record_bytes_Nil [of rs] by (auto simp: snapshot_of_def)

lemma snapshot_first_timestamp:
  assumes ok: "abi_ok a" and sn: "snapshot_of a s (r # rest)"
  shows "entry_timestamp a (snap_mData s) (mBegin s) = Inr (record_ts a r)"
proof -
  from snapshot_split [OF sn] obtain pre post
    where data: "snap_mData s = pre @ concat (map record_bytes (r # rest)) @ post"
      and pre: "int (length pre) = mBegin s"
    by blast
  have wf: "wf_record a r" using sn by (simp add: snapshot_of_def)
  have "snap_mData s = pre @ record_bytes r @ (concat (map record_bytes rest) @ post)"
    using data by simp
  then show ?thesis
    using entry_timestamp_record [OF ok wf, of pre "concat (map record_bytes rest) @ post"] pre
    by simp
qed

lemma init_timestamps_queue:
  assumes ok: "abi_ok a" and sn: "list_all2 (snapshot_of a) ss rss"
  shows "init_timestamps a ss i q = Inr (q @ queue_of a i rss)"
  using sn
proof (induction arbitrary: i q rule: list_all2_induct)
  case Nil
  then show ?case by simp
next
  case (Cons s ss rs rss)
  note sn1 = Cons.hyps(1) and ih = Cons.IH
  show ?case
  proof (cases rs)
    case Nil
    then show ?thesis
      using snapshot_nonempty [OF sn1] ih by simp
  next
    case (Cons r rest)
    have "mBegin s \<noteq> mEnd s" using snapshot_nonempty [OF sn1] Cons by simp
    moreover have "entry_timestamp a (snap_mData s) (mBegin s) = Inr (record_ts a r)"
      using snapshot_first_timestamp [OF ok] sn1 Cons by simp
    ultimately show ?thesis
      using Cons ih by (simp add: pq_emplace_def)
  qed
qed

lemma queue_of_item:
  "m \<in> set (queue_of a i rss) \<Longrightarrow>
   i \<le> item_index m \<and> item_index m - i < length rss \<and> rss ! (item_index m - i) \<noteq> [] \<and>
   item_ts m = record_ts a (hd (rss ! (item_index m - i)))"
proof (induction rss arbitrary: i)
  case Nil
  then show ?case by simp
next
  case (Cons rs rss)
  show ?case
  proof (cases "m \<in> set (queue_of a (Suc i) rss)")
    case True
    from Cons.IH [OF True] have ih: "Suc i \<le> item_index m" "item_index m - Suc i < length rss"
      "rss ! (item_index m - Suc i) \<noteq> []"
      "item_ts m = record_ts a (hd (rss ! (item_index m - Suc i)))"
      by simp_all
    have "item_index m - i = Suc (item_index m - Suc i)" using ih(1) by arith
    then show ?thesis using ih by simp
  next
    case False
    then have "rs \<noteq> []" "m = MergeItem (record_ts a (hd rs)) i"
      using Cons.prems by (auto split: if_splits)
    then show ?thesis by simp
  qed
qed

lemma queue_of_distinct: "distinct (map item_index (queue_of a i rss))"
proof (induction rss arbitrary: i)
  case Nil
  then show ?case by simp
next
  case (Cons rs rss)
  have "i \<notin> item_index ` set (queue_of a (Suc i) rss)"
    using queue_of_item [of _ a "Suc i" rss] by force
  then show ?case using Cons.IH [of "Suc i"] by simp
qed

lemma queue_of_complete:
  "j < length rss \<Longrightarrow> rss ! j \<noteq> [] \<Longrightarrow> i + j \<in> item_index ` set (queue_of a i rss)"
proof (induction rss arbitrary: i j)
  case Nil
  then show ?case by simp
next
  case (Cons rs rss)
  show ?case
  proof (cases j)
    case 0
    then have "MergeItem (record_ts a (hd rs)) i \<in> set (queue_of a i (rs # rss))"
      using Cons.prems by simp
    then show ?thesis unfolding 0 by force
  next
    case (Suc j')
    then have "Suc i + j' \<in> item_index ` set (queue_of a (Suc i) rss)"
      using Cons.prems by (intro Cons.IH) simp_all
    then show ?thesis using Suc by auto
  qed
qed

lemma entry_timestamp_authored:
  assumes ok: "abi_ok a" and wf: "wf_record a r"
  shows "entry_timestamp a (pre @ record_with_author a stack i r @ post) (int (length pre))
         = Inr (record_ts a r)"
proof (cases r)
  case (FormatRecord fmt t h args)
  let ?f1 = "frame_bytes EVENT_START_FMT fmt"
  let ?rest = "frames_bytes ((EVENT_HASH, h) # (EVENT_AUTHOR, enc_int i) # args
                             @ [(EVENT_END_FMT, [])]) @ post"
  let ?buf = "pre @ ?f1 @ frame_bytes EVENT_TIMESTAMP t @ ?rest"
  have buf: "pre @ record_with_author a stack i r @ post = ?buf" using FormatRecord by simp
  have b: "length fmt \<le> kMaxLength" "length t = sizeof_timespec a"
    using wf FormatRecord by simp_all
  have be: "buildEntry ?buf (int (length pre)) = Inr (Some FormatKind)"
    by (simp add: buildEntry_frame)
  define i1 where "i1 = int (length pre) + int (length fmt) + 3"
  have inc: "it_inc ?buf (int (length pre)) = Inr i1"
    unfolding i1_def by (rule it_inc_frame [OF b(1)])
  have "rd_range ((pre @ ?f1 @ [EVENT_TIMESTAMP, of_nat (length t)]) @ t
                  @ ([of_nat (length t)] @ ?rest))
          (int (length (pre @ ?f1 @ [EVENT_TIMESTAMP, of_nat (length t)]))) (length t) = Inr t"
    by (rule rd_range_mid)
  then have r: "rd_range ?buf (i1 + off_data) (sizeof_timespec a) = Inr t"
    using b(2) by (simp add: i1_def frame_bytes_def off_data_def algebra_simps)
  have "entry_timestamp a ?buf (int (length pre)) = Inr (dec_timespec a t)"
    by (simp only: entry_timestamp_def be FormatEntry_timestamp_def inc r sum.case option.case
        entry_kind.case)
  then show ?thesis
    unfolding buf using FormatRecord by simp
next
  case (HistogramRecord ty pl)
  let ?pl = "pl @ enc_int i @ hist_padding a stack"
  let ?buf = "pre @ frame_bytes ty ?pl @ post"
  have buf: "pre @ record_with_author a stack i r @ post = ?buf" using HistogramRecord by simp
  have b: "ty = EVENT_HISTOGRAM_ENTRY_TS \<or> ty = EVENT_HISTOGRAM_FLUSH"
    "length pl = sizeof_hash + sizeof_timespec a"
    using wf HistogramRecord abi_ok_sizes(3) [OF ok] by simp_all
  have be: "buildEntry ?buf (int (length pre)) = Inr (Some HistogramKind)"
    using b(1) by (auto simp: buildEntry_frame event_defs)
  have r: "rd_range ?buf (int (length pre) + off_data + int sizeof_hash) (sizeof_timespec a)
           = Inr (drop sizeof_hash pl)"
    using b(2) by (simp add: rd_range_def frame_bytes_def off_data_def nat_add_distrib)
  have "entry_timestamp a ?buf (int (length pre)) = Inr (dec_timespec a (drop sizeof_hash pl))"
    by (simp only: entry_timestamp_def be HistogramEntry_timestamp_def r sum.case option.case
        entry_kind.case)
  then show ?thesis
    unfolding buf using HistogramRecord by simp
qed

lemma merged_bytes_nth:
  assumes "k < length out"
  shows "merged_bytes a stack out
         = merged_bytes a stack (take k out)
           @ record_with_author a stack (of_nat (fst (out ! k))) (snd (out ! k))
           @ merged_bytes a stack (drop (Suc k) out)"
proof -
  have "out = take k out @ out ! k # drop (Suc k) out"
    using assms by (rule id_take_nth_drop)
  then have "merged_bytes a stack out
             = merged_bytes a stack (take k out @ out ! k # drop (Suc k) out)"
    by simp
  then show ?thesis by (simp add: merged_bytes_def case_prod_beta)
qed

lemma snapshot_holding_of:
  "\<forall>r \<in> set rs. wf_record a r \<Longrightarrow> snapshot_of a (snapshot_holding rs) rs"
  by (simp add: snapshot_of_def snapshot_holding_def)


lemma pq_singleton: "pq_top [m] = m" "pq_pop [m] = []"
  by (simp_all add: pq_top_def pq_pop_def)

lemma log_record_at_frames:
  assumes en: "mEnabled w" and out: "mFifoWriter w = Some out" and ok: "abi_ok a"
  shows "log_record_at a w sec
         = Inr (w\<lparr>mFifoWriter := Some (out @ record_bytes (record_at a sec))\<rparr>)"
proof -
  let ?f1 = "frame_bytes EVENT_START_FMT (string_payload [])"
  let ?f2 = "frame_bytes EVENT_TIMESTAMP (enc_timespec a \<lparr>tv_sec = sec, tv_nsec = 0\<rparr>)"
  let ?f3 = "frame_bytes EVENT_HASH (enc_hash 0)"
  let ?w1 = "w\<lparr>mFifoWriter := Some (out @ ?f1)\<rparr>"
  let ?w2 = "?w1\<lparr>mFifoWriter := Some ((out @ ?f1) @ ?f2)\<rparr>"
  let ?w3 = "?w2\<lparr>mFifoWriter := Some (((out @ ?f1) @ ?f2) @ ?f3)\<rparr>"
  have 1: "logStart w [] = Inr ?w1" by (rule logStart_frame [OF en out])
  have 2: "logTimestamp a ?w1 \<lparr>tv_sec = sec, tv_nsec = 0\<rparr> = Inr ?w2"
    by (rule logTimestamp_frame [OF _ _ ok]) (use en in simp_all)
  have 3: "logHash ?w2 0 = Inr ?w3"
    by (rule logHash_frame) (use en in simp_all)
  have 4: "logEnd ?w3
           = Inr (?w3\<lparr>mFifoWriter := Some ((((out @ ?f1) @ ?f2) @ ?f3) @ frame_bytes EVENT_END_FMT [])\<rparr>)"
    by (rule logEnd_frame) (use en in simp_all)
  show ?thesis
    unfolding log_record_at_def by (simp only: 1 2 3 4 sum.case)
      (simp add: record_at_def string_payload_def)
qed

lemma getSnapshot_two:
  "getSnapshot (Some \<lparr>availToRead = 56,
      iovec0 = record_bytes (record_at ilp32 2) @ record_bytes (record_at ilp32 1),
      iovec1 = [], lost = 0\<rparr>)
   = Inr (snapshot_holding [record_at ilp32 2, record_at ilp32 1], Some 56)"
  by code_simp

text \<open>
  Claim C4, with the condition under which it holds. \<open>Merger::merge\<close> on snapshots that hold the
  record lists \<open>recs\<close>, each list in non-decreasing timestamp order: the merge returns, the
  merged FIFO receives the records \<open>out\<close>, each with the index of its snapshot as author;
  the records of index \<open>i\<close> in \<open>out\<close> are the records of snapshot \<open>i\<close>, in their order;
  \<open>out\<close> is ordered: of two records the earlier one has a timestamp that is not greater
  and, when the timestamps are equal, an index that is not greater; and \<open>timestamp()\<close> read
  in the merged FIFO at the \<open>k\<close>-th record is the timestamp of \<open>out ! k\<close>.
\<close>

theorem merge_orders_sorted_streams:
  assumes ok: "abi_ok a" and st: "length stack = kOverhead + sizeof_HistTsEntryWithAuthor a"
    and sn: "list_all2 (snapshot_of a) snapshots recs"
    and srt: "\<forall>rs\<in>set recs.
                sorted_wrt (\<lambda>r s. \<not> timespec_gt (record_ts a r) (record_ts a s)) rs"
  shows "\<exists>out. merge_snapshots a stack snapshots dst = Inr (dst @ merged_bytes a stack out) \<and>
           (\<forall>i<length recs. map snd (filter (\<lambda>x. fst x = i) out) = recs ! i) \<and>
           (\<forall>x\<in>set out. fst x < length recs) \<and>
           sorted_wrt (merged_before a) out \<and>
           (\<forall>k<length out.
              entry_timestamp a (dst @ merged_bytes a stack out)
                (int (length dst) + int (length (merged_bytes a stack (take k out))))
              = Inr (record_ts a (snd (out ! k))))"
proof -
  have len: "length snapshots = length recs" using sn by (rule list_all2_lengthD)
  have init: "init_timestamps a snapshots 0 [] = Inr (queue_of a 0 recs)"
    using init_timestamps_queue [OF ok sn, of 0 "[]"] by simp
  have lo: "length (map mBegin snapshots) = length recs" using len by simp
  have pos: "\<forall>i<length recs. \<exists>dn. snapshot_of a (snapshots ! i) (dn @ recs ! i) \<and>
               map mBegin snapshots ! i
               = mBegin (snapshots ! i) + int (length (concat (map record_bytes dn)))"
  proof (intro allI impI)
    fix i assume i: "i < length recs"
    have "snapshot_of a (snapshots ! i) ([] @ recs ! i)"
      using list_all2_nthD2 [OF sn i] by simp
    moreover have "map mBegin snapshots ! i
                   = mBegin (snapshots ! i) + int (length (concat (map record_bytes [])))"
      using i len by simp
    ultimately show "\<exists>dn. snapshot_of a (snapshots ! i) (dn @ recs ! i) \<and>
               map mBegin snapshots ! i
               = mBegin (snapshots ! i) + int (length (concat (map record_bytes dn)))"
      by blast
  qed
  have srt': "\<forall>i<length recs.
                sorted_wrt (\<lambda>r s. \<not> timespec_gt (record_ts a r) (record_ts a s)) (recs ! i)"
    using srt by simp
  have qs: "\<forall>m\<in>set (queue_of a 0 recs). item_index m < length recs \<and>
              recs ! item_index m \<noteq> [] \<and> item_ts m = record_ts a (hd (recs ! item_index m))"
    using queue_of_item [of _ a 0 recs] by simp
  have qc: "\<forall>i<length recs. recs ! i \<noteq> [] \<longrightarrow> i \<in> item_index ` set (queue_of a 0 recs)"
    using queue_of_complete [of _ recs 0 a] by simp
  from merge_loop_sorted [OF ok st len lo pos srt' queue_of_distinct qs qc, of dst]
  obtain out where
    o1: "merge_loop a stack snapshots (map mBegin snapshots) (queue_of a 0 recs) dst
         = Inr (dst @ merged_bytes a stack out)"
    and o2: "sorted_wrt (merged_before a) out"
    and o3: "\<forall>i<length recs. map snd (filter (\<lambda>x. fst x = i) out) = recs ! i"
    and o4: "\<forall>x\<in>set out. fst x < length recs"
    unfolding merged_bytes_def by blast
  have m: "merge_snapshots a stack snapshots dst = Inr (dst @ merged_bytes a stack out)"
    using init o1 by (simp add: merge_snapshots_def)
  have dec: "\<forall>k<length out.
              entry_timestamp a (dst @ merged_bytes a stack out)
                (int (length dst) + int (length (merged_bytes a stack (take k out))))
              = Inr (record_ts a (snd (out ! k)))"
  proof (intro allI impI)
    fix k assume k: "k < length out"
    let ?i = "fst (out ! k)" and ?r = "snd (out ! k)"
    have mem: "out ! k \<in> set out" using k by simp
    then have i: "?i < length recs" using o4 by blast
    have "?r \<in> set (map snd (filter (\<lambda>x. fst x = ?i) out))" using mem by force
    then have "?r \<in> set (recs ! ?i)" using o3 i by simp
    moreover have "snapshot_of a (snapshots ! ?i) (recs ! ?i)" by (rule list_all2_nthD2 [OF sn i])
    ultimately have wf: "wf_record a ?r" by (simp add: snapshot_of_def)
    have "entry_timestamp a
            ((dst @ merged_bytes a stack (take k out))
             @ record_with_author a stack (of_nat ?i) ?r @ merged_bytes a stack (drop (Suc k) out))
            (int (length (dst @ merged_bytes a stack (take k out)))) = Inr (record_ts a ?r)"
      by (rule entry_timestamp_authored [OF ok wf])
    then show "entry_timestamp a (dst @ merged_bytes a stack out)
                (int (length dst) + int (length (merged_bytes a stack (take k out))))
              = Inr (record_ts a (snd (out ! k)))"
      using merged_bytes_nth [OF k, of a stack] by simp
  qed
  from m o3 o4 o2 dec show ?thesis by blast
qed

lemma wf_record_at: "wf_record ilp32 (record_at ilp32 sec)"
  by (simp add: record_at_def length_enc_timespec kMaxLength_def sizeof_hash_def)

lemma record_ts_at_1: "record_ts ilp32 (record_at ilp32 1) = \<lparr>tv_sec = 1, tv_nsec = 0\<rparr>"
  by code_simp

lemma record_ts_at_2: "record_ts ilp32 (record_at ilp32 2) = \<lparr>tv_sec = 2, tv_nsec = 0\<rparr>"
  by code_simp

theorem merge_orders_sorted_streams_witness:
  "abi_ok ilp32 \<and>
   length (replicate 27 0 :: byte list) = kOverhead + sizeof_HistTsEntryWithAuthor ilp32 \<and>
   list_all2 (snapshot_of ilp32)
     [snapshot_holding [record_at ilp32 2], snapshot_holding [record_at ilp32 1, record_at ilp32 2]]
     [[record_at ilp32 2], [record_at ilp32 1, record_at ilp32 2]] \<and>
   sorted_wrt (\<lambda>r s. \<not> timespec_gt (record_ts ilp32 r) (record_ts ilp32 s))
     [record_at ilp32 2] \<and>
   sorted_wrt (\<lambda>r s. \<not> timespec_gt (record_ts ilp32 r) (record_ts ilp32 s))
     [record_at ilp32 1, record_at ilp32 2] \<and>
   (\<exists>out. merge_snapshots ilp32 (replicate 27 0)
             [snapshot_holding [record_at ilp32 2],
              snapshot_holding [record_at ilp32 1, record_at ilp32 2]] []
           = Inr ([] @ merged_bytes ilp32 (replicate 27 0) out) \<and>
           (\<forall>i<length [[record_at ilp32 2], [record_at ilp32 1, record_at ilp32 2]].
              map snd (filter (\<lambda>x. fst x = i) out)
              = [[record_at ilp32 2], [record_at ilp32 1, record_at ilp32 2]] ! i) \<and>
           (\<forall>x\<in>set out. fst x < length [[record_at ilp32 2], [record_at ilp32 1, record_at ilp32 2]]) \<and>
           sorted_wrt (merged_before ilp32) out \<and>
           (\<forall>k<length out.
              entry_timestamp ilp32 ([] @ merged_bytes ilp32 (replicate 27 0) out)
                (int (length ([] :: byte list))
                 + int (length (merged_bytes ilp32 (replicate 27 0) (take k out))))
              = Inr (record_ts ilp32 (snd (out ! k)))))"
proof -
  have h1: "abi_ok ilp32" by code_simp
  have h2: "length (replicate 27 0 :: byte list) = kOverhead + sizeof_HistTsEntryWithAuthor ilp32"
    by (simp add: ilp32_def kOverhead_def)
  have h3: "list_all2 (snapshot_of ilp32)
     [snapshot_holding [record_at ilp32 2], snapshot_holding [record_at ilp32 1, record_at ilp32 2]]
     [[record_at ilp32 2], [record_at ilp32 1, record_at ilp32 2]]"
    by (simp add: snapshot_holding_of wf_record_at)
  have h4: "\<forall>rs\<in>set [[record_at ilp32 2], [record_at ilp32 1, record_at ilp32 2]].
      sorted_wrt (\<lambda>r s. \<not> timespec_gt (record_ts ilp32 r) (record_ts ilp32 s)) rs"
    by (simp add: record_ts_at_1 record_ts_at_2 timespec_gt_def)
  have h4a: "sorted_wrt (\<lambda>r s. \<not> timespec_gt (record_ts ilp32 r) (record_ts ilp32 s))
               [record_at ilp32 2]"
    by simp
  have h4b: "sorted_wrt (\<lambda>r s. \<not> timespec_gt (record_ts ilp32 r) (record_ts ilp32 s))
               [record_at ilp32 1, record_at ilp32 2]"
    by (simp add: record_ts_at_1 record_ts_at_2 timespec_gt_def)
  show ?thesis
    by (rule conjI [OF h1 conjI [OF h2 conjI [OF h3 conjI [OF h4a conjI [OF h4b
          merge_orders_sorted_streams [OF h1 h2 h3 h4, of "[]"]]]]]])
qed

text \<open>
  Without that condition the order is not kept. A writer logs by hand a record
  stamped 2 s and then one stamped 1 s; \<open>getSnapshot\<close> returns the two records as a well
  formed snapshot, and the merge of that snapshot writes them in their order, so the
  timestamps read in the merged FIFO decrease.
\<close>

theorem merge_keeps_stream_order_counterexample:
  "log_record_at ilp32 (Writer_new True 7 ''a'') 2
   = Inr ((Writer_new True 7 ''a'')\<lparr>mFifoWriter := Some (record_bytes (record_at ilp32 2))\<rparr>) \<and>
   log_record_at ilp32
     ((Writer_new True 7 ''a'')\<lparr>mFifoWriter := Some (record_bytes (record_at ilp32 2))\<rparr>) 1
   = Inr ((Writer_new True 7 ''a'')
            \<lparr>mFifoWriter := Some (record_bytes (record_at ilp32 2) @ record_bytes (record_at ilp32 1))\<rparr>) \<and>
   getSnapshot (Some \<lparr>availToRead = 56,
      iovec0 = record_bytes (record_at ilp32 2) @ record_bytes (record_at ilp32 1),
      iovec1 = [], lost = 0\<rparr>)
   = Inr (snapshot_holding [record_at ilp32 2, record_at ilp32 1], Some 56) \<and>
   snapshot_of ilp32 (snapshot_holding [record_at ilp32 2, record_at ilp32 1])
     [record_at ilp32 2, record_at ilp32 1] \<and>
   merge_snapshots ilp32 (replicate 27 0)
     [snapshot_holding [record_at ilp32 2, record_at ilp32 1]] []
   = Inr (merged_bytes ilp32 (replicate 27 0) [(0, record_at ilp32 2), (0, record_at ilp32 1)]) \<and>
   entry_timestamp ilp32
     (merged_bytes ilp32 (replicate 27 0) [(0, record_at ilp32 2), (0, record_at ilp32 1)]) 0
   = Inr \<lparr>tv_sec = 2, tv_nsec = 0\<rparr> \<and>
   entry_timestamp ilp32
     (merged_bytes ilp32 (replicate 27 0) [(0, record_at ilp32 2), (0, record_at ilp32 1)])
     (int (length (merged_bytes ilp32 (replicate 27 0) [(0, record_at ilp32 2)])))
   = Inr \<lparr>tv_sec = 1, tv_nsec = 0\<rparr> \<and>
   timespec_gt \<lparr>tv_sec = 2, tv_nsec = 0\<rparr> \<lparr>tv_sec = 1, tv_nsec = 0\<rparr>"
proof -
  let ?late = "record_at ilp32 2" and ?early = "record_at ilp32 1"
  let ?stack = "replicate 27 0 :: byte list"
  let ?s = "snapshot_holding [?late, ?early]"
  let ?A = "record_with_author ilp32 ?stack 0 ?late"
  let ?B = "record_with_author ilp32 ?stack 0 ?early"
  have ok: "abi_ok ilp32" by code_simp
  have st: "length ?stack = kOverhead + sizeof_HistTsEntryWithAuthor ilp32"
    by (simp add: ilp32_def kOverhead_def)
  have sn: "snapshot_of ilp32 ?s [?late, ?early]"
    by (simp add: snapshot_holding_of wf_record_at)
  have init: "init_timestamps ilp32 [?s] 0 [] = Inr [MergeItem (record_ts ilp32 ?late) 0]"
    using init_timestamps_queue [OF ok, of "[?s]" "[[?late, ?early]]" 0 "[]"] sn by simp
  have b: "mBegin ?s = 0" by (simp add: snapshot_holding_def)
  have s1: "merge_loop ilp32 ?stack [?s] [0] [MergeItem (record_ts ilp32 ?late) 0] []
            = merge_loop ilp32 ?stack [?s] [int (length (record_bytes ?late))]
                [MergeItem (record_ts ilp32 ?early) 0] ?A"
    using merge_loop_step [OF ok st, of "[MergeItem (record_ts ilp32 ?late) 0]" 0 "[?s]" "[0]"
        "[]" ?late "[?early]" "[]"] sn b
    by (simp add: pq_singleton pq_emplace_def)
  have s2: "merge_loop ilp32 ?stack [?s] [int (length (record_bytes ?late))]
                [MergeItem (record_ts ilp32 ?early) 0] ?A
            = merge_loop ilp32 ?stack [?s]
                [int (length (record_bytes ?late)) + int (length (record_bytes ?early))] [] (?A @ ?B)"
    using merge_loop_step [OF ok st, of "[MergeItem (record_ts ilp32 ?early) 0]" 0 "[?s]"
        "[int (length (record_bytes ?late))]" "[?late]" ?early "[]" ?A] sn b
    by (simp add: pq_singleton)
  have s3: "merge_loop ilp32 ?stack [?s]
                [int (length (record_bytes ?late)) + int (length (record_bytes ?early))] [] (?A @ ?B)
            = Inr (?A @ ?B)"
    by (subst merge_loop.simps) simp
  have mb: "merged_bytes ilp32 ?stack [(0, ?late), (0, ?early)] = ?A @ ?B"
    "merged_bytes ilp32 ?stack [(0, ?late)] = ?A"
    by (simp_all add: merged_bytes_def)
  have m: "merge_snapshots ilp32 ?stack [?s] [] = Inr (?A @ ?B)"
    using init s1 s2 s3 b by (simp add: merge_snapshots_def)
  have t1: "entry_timestamp ilp32 ([] @ ?A @ ?B) (int (length ([] :: byte list)))
            = Inr (record_ts ilp32 ?late)"
    by (rule entry_timestamp_authored [OF ok wf_record_at])
  have t2: "entry_timestamp ilp32 (?A @ ?B @ []) (int (length ?A)) = Inr (record_ts ilp32 ?early)"
    by (rule entry_timestamp_authored [OF ok wf_record_at])
  have g: "timespec_gt \<lparr>tv_sec = 2, tv_nsec = 0\<rparr> \<lparr>tv_sec = 1, tv_nsec = 0\<rparr>"
    by (simp add: timespec_gt_def)
  let ?w = "Writer_new True 7 ''a''"
  have en: "mEnabled ?w" "mFifoWriter ?w = Some []" by (simp_all add: Writer_new_def Let_def)
  have w1: "log_record_at ilp32 ?w 2 = Inr (?w\<lparr>mFifoWriter := Some (record_bytes ?late)\<rparr>)"
    using log_record_at_frames [OF en ok, of 2] by simp
  have w2: "log_record_at ilp32 (?w\<lparr>mFifoWriter := Some (record_bytes ?late)\<rparr>) 1
            = Inr (?w\<lparr>mFifoWriter := Some (record_bytes ?late @ record_bytes ?early)\<rparr>)"
    using log_record_at_frames [of "?w\<lparr>mFifoWriter := Some (record_bytes ?late)\<rparr>"
        "record_bytes ?late" ilp32 1] en ok
    by simp
  have rest: "snapshot_of ilp32 ?s [?late, ?early] \<and>
     merge_snapshots ilp32 ?stack [?s] []
     = Inr (merged_bytes ilp32 ?stack [(0, ?late), (0, ?early)]) \<and>
     entry_timestamp ilp32 (merged_bytes ilp32 ?stack [(0, ?late), (0, ?early)]) 0
     = Inr \<lparr>tv_sec = 2, tv_nsec = 0\<rparr> \<and>
     entry_timestamp ilp32 (merged_bytes ilp32 ?stack [(0, ?late), (0, ?early)])
       (int (length (merged_bytes ilp32 ?stack [(0, ?late)])))
     = Inr \<lparr>tv_sec = 1, tv_nsec = 0\<rparr> \<and>
     timespec_gt \<lparr>tv_sec = 2, tv_nsec = 0\<rparr> \<lparr>tv_sec = 1, tv_nsec = 0\<rparr>"
    unfolding mb using sn m t1 t2 g by (simp add: record_ts_at_1 record_ts_at_2)
  show ?thesis
    by (rule conjI [OF w1 conjI [OF w2 conjI [OF getSnapshot_two rest]]])
qed

end
